theory Spec2Isabelle
  imports Complex_Main "HOL-Library.Sublist" "HOL-Library.AList" "HOL-Library.Multiset"
    "HOL-Library.Word"
begin

section \<open>Strings and the two regular expressions of council.go\<close>

text \<open>
  A Go string is a sequence of bytes; so is a HOL \<open>string\<close>. The marker and both
  patterns of \<open>ParseRankingFromText\<close> are pure ASCII, and no byte of a multi-byte UTF-8
  sequence is an ASCII byte, so matching byte by byte finds what Go's rune-wise matcher
  finds.
\<close>

text \<open>\<open>strings.Index\<close>: the position of the first occurrence of \<open>sep\<close> in \<open>s\<close>
  (Go returns \<open>-1\<close> where this returns \<open>None\<close>).\<close>

fun Index :: "string \<Rightarrow> string \<Rightarrow> nat option" where
  "Index [] sep = (if sep = [] then Some 0 else None)"
| "Index (c # cs) sep =
     (if prefix sep (c # cs) then Some 0 else map_option Suc (Index cs sep))"

definition Contains :: "string \<Rightarrow> string \<Rightarrow> bool" where
  "Contains s substr = (Index s substr \<noteq> None)"

lemma Index_Some_bound: "Index s sep = Some i \<Longrightarrow> i + length sep \<le> length s"
proof (induction s arbitrary: i)
  case Nil
  then show ?case by (simp split: if_splits)
next
  case (Cons c cs)
  show ?case
  proof (cases "prefix sep (c # cs)")
    case True
    with Cons.prems show ?thesis using prefix_length_le [of sep "c # cs"] by simp
  next
    case False
    with Cons.prems obtain j where "Index cs sep = Some j" "i = Suc j" by auto
    with Cons.IH show ?thesis by fastforce
  qed
qed

text \<open>
  \<open>strings.Split(s, sep)\<close> for a non-empty separator: the pieces of \<open>s\<close> between
  the successive, non-overlapping occurrences of \<open>sep\<close>, found from the left. The code
  calls it with the marker only; Go's splitting at an empty separator (into UTF-8
  sequences) is left out, so \<open>Split s []\<close> has no equation.
\<close>

function (sequential) Split :: "string \<Rightarrow> string \<Rightarrow> string list" where
  "Split s (p # ps) =
     (case Index s (p # ps) of
        None \<Rightarrow> [s]
      | Some i \<Rightarrow> take i s # Split (drop (i + length (p # ps)) s) (p # ps))"
| "Split s [] = undefined"
  by pat_completeness auto
termination
proof (relation "measure (\<lambda>(s, sep). length s)")
  show "wf (measure (\<lambda>(s, sep). length s))" by simp
next
  fix s :: string and p ps i
  assume "Index s (p # ps) = Some i"
  from Index_Some_bound [OF this]
  show "((drop (i + length (p # ps)) s, p # ps), (s, p # ps)) \<in> measure (\<lambda>(s, sep). length s)"
    by simp
qed

text \<open>The character classes \<open>\d\<close>, \<open>\s\<close> and \<open>[A-Z]\<close> of Go's regexp (RE2 syntax):
  ASCII digits; tab, newline, form feed, carriage return and space; ASCII capitals.\<close>

definition isDigit :: "char \<Rightarrow> bool" where
  "isDigit c = (48 \<le> (of_char c :: nat) \<and> (of_char c :: nat) \<le> 57)"

definition isSpace :: "char \<Rightarrow> bool" where
  "isSpace c = ((of_char c :: nat) \<in> {9, 10, 12, 13, 32})"

definition isUpper :: "char \<Rightarrow> bool" where
  "isUpper c = (65 \<le> (of_char c :: nat) \<and> (of_char c :: nat) \<le> 90)"

text \<open>
  A compiled pattern is modelled by its anchored matcher: the length of the match that
  starts at the first byte of the input, if there is one.

  \<open>Response [A-Z]\<close> matches ten bytes: the nine of \<open>Response \<close> and one capital.
\<close>

definition responsePattern :: "string \<Rightarrow> nat option" where
  "responsePattern s =
     (case drop 9 s of
        [] \<Rightarrow> None
      | u # _ \<Rightarrow> if take 9 s = ''Response '' \<and> isUpper u then Some 10 else None)"

text \<open>
  \<open>\d+\.\s*Response [A-Z]\<close>. A match from a given start is unique: \<open>\d+\<close> must
  take every digit of the run, because a period has to follow it, and \<open>\s*\<close> every
  whitespace byte, because an \<open>R\<close> has to follow; so the greedy run is the only
  candidate and no backtracking changes the result.
\<close>

definition numberedPattern :: "string \<Rightarrow> nat option" where
  "numberedPattern s =
     (let ds = takeWhile isDigit s in
      if ds = [] then None
      else case dropWhile isDigit s of
        [] \<Rightarrow> None
      | d # r1 \<Rightarrow>
          if d \<noteq> CHR ''.'' then None
          else case responsePattern (dropWhile isSpace r1) of
            None \<Rightarrow> None
          | Some n \<Rightarrow> Some (length ds + 1 + length (takeWhile isSpace r1) + n))"

text \<open>
  \<open>re.FindAllString(s, -1)\<close>: the successive non-overlapping matches, each the leftmost
  one after the end of the previous match. Both patterns match at least ten bytes, so
  Go's special treatment of empty matches never applies.
\<close>

fun FindAllString :: "(string \<Rightarrow> nat option) \<Rightarrow> string \<Rightarrow> string list" where
  "FindAllString re [] = []"
| "FindAllString re (c # cs) =
     (case re (c # cs) of
        None \<Rightarrow> FindAllString re cs
      | Some n \<Rightarrow> take n (c # cs) # FindAllString re (drop (n - 1) cs))"

text \<open>\<open>re.FindString(s)\<close>: the leftmost match, or the empty string when there is none.\<close>

definition FindString :: "(string \<Rightarrow> nat option) \<Rightarrow> string \<Rightarrow> string" where
  "FindString re s = (case FindAllString re s of [] \<Rightarrow> [] | m # _ \<Rightarrow> m)"

section \<open>The ranking text parser\<close>

definition marker :: string where
  "marker = ''FINAL RANKING:''"

text \<open>
  \<open>ParseRankingFromText\<close> (council.go). \<open>wholeText\<close> is the code after the outer
  \<open>if\<close>: every path that does not return earlier ends there.
\<close>

definition ParseRankingFromText :: "string \<Rightarrow> string list" where
  "ParseRankingFromText rankingText =
     (let wholeText = FindAllString responsePattern rankingText in
      if Contains rankingText marker then
        (let parts = Split rankingText marker in
         if length parts \<ge> 2 then
           (let rankingSection = parts ! 1;
                numberedMatches = FindAllString numberedPattern rankingSection in
            if length numberedMatches > 0 then
              concat (map (\<lambda>match.
                        let resp = FindString responsePattern match
                        in if resp \<noteq> [] then [resp] else [])
                      numberedMatches)
            else
              (let matches = FindAllString responsePattern rankingSection in
               if length matches > 0 then matches else wholeText))
         else wholeText)
      else wholeText)"

text \<open>
  The label inside a match of the numbered pattern: what is left of the match after its
  number, its period and the whitespace.
\<close>

definition embeddedLabel :: "string \<Rightarrow> string" where
  "embeddedLabel m = dropWhile isSpace (drop 1 (dropWhile isDigit m))"

section \<open>Data model (models.go, config.go)\<close>

record Stage1Response =
  Model :: string
  Response :: string

record Stage2Ranking =
  Model :: string
  Ranking :: string
  ParsedRanking :: "string list"

record Stage3Response =
  Model :: string
  Response :: string

text \<open>
  \<open>AverageRank\<close> is a \<open>float64\<close>. Its type is left open as \<open>'r\<close>: the aggregator
  only produces such values by one division and compares them, so it takes the division
  \<open>float64(a) / float64(b)\<close> as a parameter and needs no more of \<open>'r\<close> than its linear
  order (the quotients of positive integers are never NaN). \<open>RankingsCount\<close> and the
  positions are Go \<open>int\<close>s (64 bits); sums of positions of slices that fit in memory
  stay far below \<open>2^63\<close>, so they are modelled by \<open>int\<close>.
\<close>

record 'r AggregateRanking =
  Model :: string
  AverageRank :: 'r
  RankingsCount :: int

text \<open>\<open>LabelToModel\<close> is a Go map that is only written and looked up, never ranged over:
  a partial function. The \<open>nil\<close> map of \<open>Metadata{}\<close> is the empty one.\<close>

record 'r Metadata =
  LabelToModel :: "string \<rightharpoonup> string"
  AggregateRankings :: "'r AggregateRanking list"

record OpenRouterMessage =
  Role :: string
  Content :: string

text \<open>\<open>ReasoningDetails\<close> is an \<open>interface{}\<close> holding decoded JSON; the council code
  never looks into it, so its type is a parameter.\<close>

record 'd OpenRouterResponse =
  Content :: string
  ReasoningDetails :: 'd

text \<open>
  Go errors. \<open>Errorf msg\<close> is \<open>fmt.Errorf(msg)\<close>, \<open>Wrapf msg e\<close> is
  \<open>fmt.Errorf(msg + ": %w", e)\<close>, and \<open>External\<close> stands for an error made outside
  this package (net/http, encoding/json, context).
\<close>

datatype error = External string | Errorf string | Wrapf string error

type_synonym Duration = int

definition Second :: Duration where
  "Second = 1000000000"

text \<open>The package-level variables of config.go that the council reads. They are
  mutable globals (the tests overwrite them), so they are passed in.\<close>

record config =
  CouncilModels :: "string list"
  ChairmanModel :: string
  ModelQueryTimeout :: Duration

section \<open>Go maps that are ranged over\<close>

text \<open>
  A map the code iterates is an association list with distinct keys, written with
  \<open>AList.update\<close> and read with \<open>map_of\<close>. Go leaves the order of \<open>range\<close> over a
  map unspecified: it is a parameter, \<open>visit\<close>, that ranks the keys; the entries are
  visited by increasing rank. As the keys are distinct, every order of the entries is the
  order of some \<open>visit\<close>.
\<close>

definition rangeMap :: "('k \<Rightarrow> nat) \<Rightarrow> ('k \<times> 'v) list \<Rightarrow> ('k \<times> 'v) list" where
  "rangeMap visit m = sort_key (\<lambda>(k, v). visit k) m"

section \<open>The parallel query executor (openrouter.go)\<close>

text \<open>
  \<open>QueryModel\<close> is one HTTP round trip: its outcome is decided by the network, not by
  its arguments. A call is therefore a parameter of this type; \<open>Inl\<close> is the error
  return. The \<open>context.Context\<close> argument only carries cancellation, which shows as a
  failed call.
\<close>

type_synonym 'd QueryModel =
  "string \<Rightarrow> OpenRouterMessage list \<Rightarrow> Duration \<Rightarrow> error + 'd OpenRouterResponse"

text \<open>
  What one fan-out leaves to the environment: \<open>calls i\<close> is the \<open>QueryModel\<close> call of
  the goroutine started for \<open>models[i]\<close>; \<open>sched\<close> ranks the goroutines by the moment
  they take the mutex, so the writes to \<open>results\<close> happen by increasing \<open>sched\<close>; and
  \<open>visit\<close> is the order in which the caller later ranges over the returned map.
\<close>

record 'd fanout =
  calls :: "nat \<Rightarrow> 'd QueryModel"
  sched :: "nat \<Rightarrow> nat"
  visit :: "string \<Rightarrow> nat"

text \<open>The body of one goroutine: the entry it writes to \<open>results\<close> (\<open>None\<close> is the
  \<open>nil\<close> pointer) and the error it returns to the errgroup.\<close>

definition goroutine ::
  "'d QueryModel \<Rightarrow> string \<Rightarrow> OpenRouterMessage list
     \<Rightarrow> (string \<times> 'd OpenRouterResponse option) \<times> error option" where
  "goroutine queryModel model messages =
     (case queryModel model messages (120 * Second) of
        Inl err \<Rightarrow> ((model, None), None)
      | Inr response \<Rightarrow> ((model, Some response), None))"

text \<open>\<open>g.Wait()\<close>: the first non-nil error a goroutine returned, or \<open>nil\<close>.\<close>

definition Wait :: "error option list \<Rightarrow> error option" where
  "Wait errs = (case filter (\<lambda>e. e \<noteq> None) errs of [] \<Rightarrow> None | e # _ \<Rightarrow> e)"

definition QueryModelsParallel ::
  "'d fanout \<Rightarrow> string list \<Rightarrow> OpenRouterMessage list
     \<Rightarrow> error + (string \<times> 'd OpenRouterResponse option) list" where
  "QueryModelsParallel env models messages =
     (let finished = map (\<lambda>i. goroutine (calls env i) (models ! i) messages)
                         (sort_key (sched env) [0..<length models]);
          results = fold (\<lambda>((model, response), _) results. AList.update model response results)
                         finished []
      in case Wait (map snd finished) of
           Some err \<Rightarrow> Inl err
         | None \<Rightarrow> Inr results)"

section \<open>The three stages (council.go)\<close>

definition Stage1CollectResponses ::
  "config \<Rightarrow> 'd fanout \<Rightarrow> string \<Rightarrow> error + Stage1Response list" where
  "Stage1CollectResponses cfg env userQuery =
     (let messages = [\<lparr>Role = ''user'', OpenRouterMessage.Content = userQuery\<rparr>] in
      case QueryModelsParallel env (CouncilModels cfg) messages of
        Inl err \<Rightarrow> Inl (Wrapf ''failed to query models'' err)
      | Inr responses \<Rightarrow>
          Inr (concat (map (\<lambda>(model, response).
                 case response of
                   None \<Rightarrow> []
                 | Some r \<Rightarrow> [\<lparr>Stage1Response.Model = model,
                               Stage1Response.Response = OpenRouterResponse.Content r\<rparr>])
               (rangeMap (visit env) responses))))"

text \<open>
  \<open>rune(x)\<close> for an \<open>int\<close> \<open>x\<close> keeps the low 32 bits as a signed value, and
  \<open>string(r)\<close> for a rune is its UTF-8 encoding, with U+FFFD in place of a value that
  is no Unicode scalar value (negative, above U+10FFFF, or a surrogate).
\<close>

definition rune :: "int \<Rightarrow> int" where
  "rune x = sint (word_of_int x :: 32 word)"

definition runeString :: "int \<Rightarrow> string" where
  "runeString r =
     (if r < 0 \<or> 0x10FFFF < r \<or> (0xD800 \<le> r \<and> r \<le> 0xDFFF) then
        [char_of (0xEF :: int), char_of (0xBF :: int), char_of (0xBD :: int)]
      else if r < 0x80 then [char_of r]
      else if r < 0x800 then [char_of (0xC0 + r div 64), char_of (0x80 + r mod 64)]
      else if r < 0x10000 then
        [char_of (0xE0 + r div 4096), char_of (0x80 + r div 64 mod 64),
         char_of (0x80 + r mod 64)]
      else
        [char_of (0xF0 + r div 262144), char_of (0x80 + r div 4096 mod 64),
         char_of (0x80 + r div 64 mod 64), char_of (0x80 + r mod 64)])"


text \<open>\<open>label\<close> and \<open>labelKey\<close> of the \<open>i\<close>-th turn of the anonymization loop.\<close>

definition label :: "nat \<Rightarrow> string" where
  "label i = runeString (rune (of_char CHR ''A'' + int i))"

definition labelKey :: "nat \<Rightarrow> string" where
  "labelKey i = ''Response '' @ label i"

text \<open>One turn of the anonymization loop, on the pair \<open>(labelToModel, responsesText)\<close>.\<close>

definition anonymize ::
  "nat \<times> Stage1Response \<Rightarrow> (string \<rightharpoonup> string) \<times> string \<Rightarrow> (string \<rightharpoonup> string) \<times> string" where
  "anonymize = (\<lambda>(i, result) (labelToModel, responsesText).
     (labelToModel(labelKey i \<mapsto> Stage1Response.Model result),
      responsesText @ ''Response '' @ label i @ '':\<newline>''
        @ Stage1Response.Response result @ ''\<newline>\<newline>''))"

text \<open>The whole loop, from the empty map and the empty \<open>strings.Builder\<close>.\<close>

definition anonymized :: "Stage1Response list \<Rightarrow> (string \<rightharpoonup> string) \<times> string" where
  "anonymized stage1Results = fold anonymize (enumerate 0 stage1Results) (Map.empty, [])"

definition rankingPrompt1 :: string where
  \<open>rankingPrompt1 =
     ''You are evaluating different responses to the following question:\<newline>\<newline>''
     @ ''Question: ''\<close>

definition rankingPrompt2 :: string where
  \<open>rankingPrompt2 =
     ''\<newline>\<newline>''
     @ ''Here are the responses from different models (anonymized):\<newline>\<newline>''\<close>

definition rankingPrompt3 :: string where
  \<open>rankingPrompt3 =
     ''\<newline>\<newline>''
     @ ''Your task:\<newline>''
     @ ''1. First, evaluate each response individually. For each response, explain what it does well and what it does poorly.\<newline>''
     @ ''2. Then, at the very end of your response, provide a final ranking.\<newline>\<newline>''
     @ ''IMPORTANT: Your final ranking MUST be formatted EXACTLY as follows:\<newline>''
     @ ''- Start with the line "FINAL RANKING:" (all caps, with colon)\<newline>''
     @ ''- Then list the responses from best to worst as a numbered list\<newline>''
     @ ''- Each line should be: number, period, space, then ONLY the response label (e.g., "1. Response A")\<newline>''
     @ ''- Do not add any other text or explanations in the ranking section\<newline>\<newline>''
     @ ''Example of the correct format for your ENTIRE response:\<newline>\<newline>''
     @ ''Response A provides good detail on X but misses Y...\<newline>''
     @ ''Response B is accurate but lacks depth on Z...\<newline>''
     @ ''Response C offers the most comprehensive answer...\<newline>\<newline>''
     @ ''FINAL RANKING:\<newline>''
     @ ''1. Response C\<newline>''
     @ ''2. Response A\<newline>''
     @ ''3. Response B\<newline>\<newline>''
     @ ''Now provide your evaluation and ranking:''\<close>

definition rankingPrompt :: "string \<Rightarrow> string \<Rightarrow> string" where
  "rankingPrompt userQuery responsesText =
     rankingPrompt1 @ userQuery @ rankingPrompt2 @ responsesText @ rankingPrompt3"

definition Stage2CollectRankings ::
  "config \<Rightarrow> 'd fanout \<Rightarrow> string \<Rightarrow> Stage1Response list
     \<Rightarrow> error + (Stage2Ranking list \<times> (string \<rightharpoonup> string))" where
  "Stage2CollectRankings cfg env userQuery stage1Results =
     (let (labelToModel, responsesText) = anonymized stage1Results;
          messages = [\<lparr>Role = ''user'',
                       OpenRouterMessage.Content = rankingPrompt userQuery responsesText\<rparr>]
      in case QueryModelsParallel env (CouncilModels cfg) messages of
        Inl err \<Rightarrow> Inl (Wrapf ''failed to query models for rankings'' err)
      | Inr responses \<Rightarrow>
          Inr (concat (map (\<lambda>(model, response).
                 case response of
                   None \<Rightarrow> []
                 | Some r \<Rightarrow>
                     (let fullText = OpenRouterResponse.Content r;
                          parsed = ParseRankingFromText fullText
                      in [\<lparr>Stage2Ranking.Model = model, Ranking = fullText,
                            ParsedRanking = parsed\<rparr>]))
               (rangeMap (visit env) responses)),
               labelToModel))"

definition stage1Text :: "Stage1Response list \<Rightarrow> string" where
  "stage1Text stage1Results =
     concat (map (\<lambda>result. ''Model: '' @ Stage1Response.Model result @ ''\<newline>Response: ''
                    @ Stage1Response.Response result @ ''\<newline>\<newline>'') stage1Results)"

definition stage2Text :: "Stage2Ranking list \<Rightarrow> string" where
  "stage2Text stage2Results =
     concat (map (\<lambda>result. ''Model: '' @ Stage2Ranking.Model result @ ''\<newline>Ranking: ''
                    @ Ranking result @ ''\<newline>\<newline>'') stage2Results)"

definition chairmanPrompt1 :: string where
  \<open>chairmanPrompt1 =
     ''You are the Chairman of an LLM Council. Multiple AI models have provided responses to a user\'s question, and then ranked each other\'s responses.\<newline>\<newline>''
     @ ''Original Question: ''\<close>

definition chairmanPrompt2 :: string where
  \<open>chairmanPrompt2 =
     ''\<newline>\<newline>''
     @ ''STAGE 1 - Individual Responses:\<newline>''\<close>

definition chairmanPrompt3 :: string where
  \<open>chairmanPrompt3 =
     ''\<newline>\<newline>''
     @ ''STAGE 2 - Peer Rankings:\<newline>''\<close>

definition chairmanPrompt4 :: string where
  \<open>chairmanPrompt4 =
     ''\<newline>\<newline>''
     @ ''Your task as Chairman is to synthesize all of this information into a single, comprehensive, accurate answer to the user\'s original question. Consider:\<newline>''
     @ ''- The individual responses and their insights\<newline>''
     @ ''- The peer rankings and what they reveal about response quality\<newline>''
     @ ''- Any patterns of agreement or disagreement\<newline>\<newline>''
     @ ''Provide a clear, well-reasoned final answer that represents the council\'s collective wisdom:''\<close>

definition chairmanPrompt :: "string \<Rightarrow> string \<Rightarrow> string \<Rightarrow> string" where
  "chairmanPrompt userQuery s1 s2 =
     chairmanPrompt1 @ userQuery @ chairmanPrompt2 @ s1 @ chairmanPrompt3 @ s2
       @ chairmanPrompt4"

definition Stage3SynthesizeFinal ::
  "config \<Rightarrow> 'd QueryModel \<Rightarrow> string \<Rightarrow> Stage1Response list \<Rightarrow> Stage2Ranking list
     \<Rightarrow> error + Stage3Response" where
  "Stage3SynthesizeFinal cfg queryModel userQuery stage1Results stage2Results =
     (let messages = [\<lparr>Role = ''user'',
                       OpenRouterMessage.Content =
                         chairmanPrompt userQuery (stage1Text stage1Results)
                           (stage2Text stage2Results)\<rparr>]
      in case queryModel (ChairmanModel cfg) messages (ModelQueryTimeout cfg) of
        Inl err \<Rightarrow> Inl (Wrapf ''chairman model query failed'' err)
      | Inr response \<Rightarrow>
          Inr \<lparr>Stage3Response.Model = ChairmanModel cfg,
               Stage3Response.Response = OpenRouterResponse.Content response\<rparr>)"

section \<open>The aggregator\<close>

text \<open>\<open>modelPositions[modelName]\<close>: the \<open>nil\<close> slice for a key that is absent.\<close>

definition positionsAt :: "(string \<times> int list) list \<Rightarrow> string \<Rightarrow> int list" where
  "positionsAt modelPositions modelName =
     (case map_of modelPositions modelName of None \<Rightarrow> [] | Some ps \<Rightarrow> ps)"

text \<open>The body of the inner loop, for one \<open>(position, label)\<close> of a parsed ranking.\<close>

definition recordPosition ::
  "(string \<rightharpoonup> string) \<Rightarrow> nat \<times> string \<Rightarrow> (string \<times> int list) list
     \<Rightarrow> (string \<times> int list) list" where
  "recordPosition labelToModel = (\<lambda>(position, label) modelPositions.
     case labelToModel label of
       Some modelName \<Rightarrow>
         AList.update modelName (positionsAt modelPositions modelName @ [int position + 1])
           modelPositions
     | None \<Rightarrow> modelPositions)"

definition collectPositions ::
  "Stage2Ranking list \<Rightarrow> (string \<rightharpoonup> string) \<Rightarrow> (string \<times> int list) list" where
  "collectPositions stage2Results labelToModel =
     fold (\<lambda>ranking. fold (recordPosition labelToModel)
                         (enumerate 0 (ParsedRanking ranking)))
          stage2Results []"

text \<open>
  \<open>sort.Slice\<close> is not stable: it may leave entries of equal \<open>AverageRank\<close> in any
  order. Here it is the stable \<open>sort_key\<close>, applied to the entries in the order of the
  \<open>range\<close> over \<open>modelPositions\<close>; as that order is arbitrary, so is the order of ties.
\<close>

definition CalculateAggregateRankings ::
  "(int \<Rightarrow> int \<Rightarrow> 'r::linorder) \<Rightarrow> (string \<Rightarrow> nat) \<Rightarrow> Stage2Ranking list
     \<Rightarrow> (string \<rightharpoonup> string) \<Rightarrow> 'r AggregateRanking list" where
  "CalculateAggregateRankings float64_div visiting stage2Results labelToModel =
     (let modelPositions = collectPositions stage2Results labelToModel;
          aggregate = concat (map (\<lambda>(model, positions).
            if length positions > 0 then
              (let sum = fold (\<lambda>pos sum. sum + pos) positions 0;
                   avgRank = float64_div sum (int (length positions))
               in [\<lparr>AggregateRanking.Model = model, AverageRank = avgRank,
                     RankingsCount = int (length positions)\<rparr>])
            else [])
            (rangeMap visiting modelPositions))
      in sort_key AverageRank aggregate)"

section \<open>The orchestrator\<close>

text \<open>Everything one run leaves to the environment.\<close>

record 'd world =
  round1 :: "'d fanout"
  round2 :: "'d fanout"
  aggregateVisit :: "string \<Rightarrow> nat"
  chairmanCall :: "'d QueryModel"

text \<open>The five results of \<open>RunFullCouncil\<close>; \<open>err = None\<close> is the \<open>nil\<close> error.\<close>

record 'r CouncilRun =
  stage1 :: "Stage1Response list"
  stage2 :: "Stage2Ranking list"
  stage3 :: Stage3Response
  metadata :: "'r Metadata"
  err :: "error option"

text \<open>\<open>return nil, nil, Stage3Response{}, Metadata{}, e\<close>\<close>

definition failed :: "error \<Rightarrow> 'r CouncilRun" where
  "failed e =
     \<lparr>stage1 = [], stage2 = [],
      stage3 = \<lparr>Stage3Response.Model = [], Stage3Response.Response = []\<rparr>,
      metadata = \<lparr>LabelToModel = Map.empty, AggregateRankings = []\<rparr>,
      err = Some e\<rparr>"

definition RunFullCouncil ::
  "(int \<Rightarrow> int \<Rightarrow> 'r::linorder) \<Rightarrow> config \<Rightarrow> 'd world \<Rightarrow> string \<Rightarrow> 'r CouncilRun" where
  "RunFullCouncil float64_div cfg w userQuery =
     (case Stage1CollectResponses cfg (round1 w) userQuery of
        Inl e \<Rightarrow> failed (Wrapf ''stage 1 failed'' e)
      | Inr stage1Results \<Rightarrow>
          if length stage1Results = 0 then
            failed (Errorf ''all council models failed to respond'')
          else
            (case Stage2CollectRankings cfg (round2 w) userQuery stage1Results of
               Inl e \<Rightarrow> failed (Wrapf ''stage 2 failed'' e)
             | Inr (stage2Results, labelToModel) \<Rightarrow>
                 (let aggregateRankings =
                        CalculateAggregateRankings float64_div (aggregateVisit w)
                          stage2Results labelToModel
                  in case Stage3SynthesizeFinal cfg (chairmanCall w) userQuery
                            stage1Results stage2Results of
                       Inl e \<Rightarrow> failed (Wrapf ''stage 3 failed'' e)
                     | Inr stage3Result \<Rightarrow>
                         \<lparr>stage1 = stage1Results, stage2 = stage2Results,
                          stage3 = stage3Result,
                          metadata = \<lparr>LabelToModel = labelToModel,
                                      AggregateRankings = aggregateRankings\<rparr>,
                          err = None\<rparr>)))"

section \<open>Notions of the specification\<close>

text \<open>
  The positions the specification speaks of: for each ranking record in turn, the 1-based
  positions at which its parsed order holds a label that the map sends to \<open>model\<close>.
\<close>

definition positionsFor :: "(string \<rightharpoonup> string) \<Rightarrow> Stage2Ranking list \<Rightarrow> string \<Rightarrow> int list" where
  "positionsFor labelToModel stage2Results model =
     concat (map (\<lambda>ranking.
       map (\<lambda>(position, label). int position + 1)
         (filter (\<lambda>(position, label). labelToModel label = Some model)
            (enumerate 0 (ParsedRanking ranking))))
       stage2Results)"

text \<open>The number of rankers who placed \<open>model\<close> somewhere in their parsed order.\<close>

definition rankersPlacing :: "(string \<rightharpoonup> string) \<Rightarrow> Stage2Ranking list \<Rightarrow> string \<Rightarrow> nat" where
  "rankersPlacing labelToModel stage2Results model =
     length (filter (\<lambda>ranking. list_ex (\<lambda>label. labelToModel label = Some model)
                                 (ParsedRanking ranking))
               stage2Results)"

text \<open>
  An occurrence of \<open>Response <single uppercase letter>\<close> at position \<open>p\<close> of a text:
  the ten bytes from \<open>p\<close> on are \<open>Response\<close>, a space and one of the twenty-six
  capital letters.
\<close>

definition responseAt :: "string \<Rightarrow> nat \<Rightarrow> bool" where
  "responseAt s p =
     list_ex (\<lambda>u. take 10 (drop p s) = ''Response '' @ [u]) ''ABCDEFGHIJKLMNOPQRSTUVWXYZ''"

text \<open>
  A match of the numbered-list pattern at position \<open>p\<close>, \<open>n\<close> bytes long: one or more
  decimal digits, a period, any number of whitespace characters (tab, line feed, form
  feed, carriage return, space), then \<open>Response\<close>, a space and one capital letter.
\<close>

definition numberedAt :: "string \<Rightarrow> nat \<Rightarrow> nat \<Rightarrow> bool" where
  "numberedAt s p n =
     (\<exists>ds ws u. take n (drop p s) = ds @ ''.'' @ ws @ ''Response '' @ [u]
        \<and> n = length ds + 1 + length ws + 10
        \<and> ds \<noteq> [] \<and> set ds \<subseteq> set ''0123456789''
        \<and> set ws \<subseteq> set [CHR 0x09, CHR 0x0A, CHR 0x0C, CHR 0x0D, CHR '' '']
        \<and> u \<in> set ''ABCDEFGHIJKLMNOPQRSTUVWXYZ'')"

text \<open>
  The ranking section in the words of the specification: the text after the marker, or
  the entire text when the marker is absent.
\<close>

definition textAfterMarker :: "string \<Rightarrow> string" where
  "textAfterMarker s =
     (case Index s marker of None \<Rightarrow> s | Some i \<Rightarrow> drop (i + length marker) s)"

text \<open>
  The places of the matches that \<open>FindAllString\<close> returns, as Go's
  \<open>FindAllStringIndex\<close> reports them: the start of each match, counted from \<open>k\<close> for the
  first byte of the scanned text, and its length.
\<close>

fun FindAllStringIndex :: "(string \<Rightarrow> nat option) \<Rightarrow> nat \<Rightarrow> string \<Rightarrow> (nat \<times> nat) list" where
  "FindAllStringIndex re k [] = []"
| "FindAllStringIndex re k (c # cs) =
     (case re (c # cs) of
        None \<Rightarrow> FindAllStringIndex re (Suc k) cs
      | Some n \<Rightarrow> (k, n) # FindAllStringIndex re (k + n) (drop (n - 1) cs))"

section \<open>Sample environments\<close>

text \<open>Concrete inputs on which the theorems below are instantiated.\<close>

definition exact_div :: "int \<Rightarrow> int \<Rightarrow> rat" where
  "exact_div a b = of_int a / of_int b"

definition answering :: "string \<Rightarrow> unit QueryModel" where
  "answering text = (\<lambda>model messages timeout.
     Inr \<lparr>OpenRouterResponse.Content = text, ReasoningDetails = ()\<rparr>)"

definition failing :: "unit QueryModel" where
  "failing = (\<lambda>model messages timeout. Inl (External ''API returned status 500''))"

text \<open>The second goroutine's call fails; the others answer. Goroutines finish in the
  order they were started, and maps are visited by the length of the key.\<close>

definition degraded :: "string \<Rightarrow> unit fanout" where
  "degraded text =
     \<lparr>calls = (\<lambda>i. if i = 1 then failing else answering text),
      sched = (\<lambda>i. i), visit = length\<rparr>"

definition allFailing :: "unit fanout" where
  "allFailing = \<lparr>calls = (\<lambda>i. failing), sched = (\<lambda>i. i), visit = length\<rparr>"

definition sampleConfig :: config where
  "sampleConfig =
     \<lparr>CouncilModels = [''model/a'', ''model/fail'', ''model/ccc''],
      ChairmanModel = ''model/chair'', ModelQueryTimeout = 120 * Second\<rparr>"

text \<open>Three runs over \<open>sampleConfig\<close>: no model answers in Stage 1; none answers in
  Stage 2; and a run in which the second model fails in both rounds.\<close>

definition deadWorld :: "unit world" where
  "deadWorld =
     \<lparr>round1 = allFailing, round2 = allFailing, aggregateVisit = length,
      chairmanCall = answering ''Synthesis''\<rparr>"

definition unrankedWorld :: "unit world" where
  "unrankedWorld =
     \<lparr>round1 = degraded ''Go is a programming language.'', round2 = allFailing,
      aggregateVisit = length, chairmanCall = answering ''Synthesis''\<rparr>"


definition sampleLabels :: "string \<rightharpoonup> string" where
  "sampleLabels = [''Response A'' \<mapsto> ''model/a'', ''Response B'' \<mapsto> ''model/ccc'']"

definition ranked :: "string \<Rightarrow> string list \<Rightarrow> Stage2Ranking" where
  "ranked model parsed =
     \<lparr>Stage2Ranking.Model = model, Ranking = [], ParsedRanking = parsed\<rparr>"


section \<open>Properties of the ranking text parser\<close>

lemma Index_Some_decomp:
  "Index s sep = Some i \<Longrightarrow> s = take i s @ sep @ drop (i + length sep) s"
proof (induction s arbitrary: i)
  case Nil
  then show ?case by (simp split: if_splits)
next
  case (Cons c cs)
  show ?case
  proof (cases "prefix sep (c # cs)")
    case True
    then obtain zs where "c # cs = sep @ zs" by (auto simp: prefix_def)
    moreover from True Cons.prems have "i = 0" by simp
    ultimately show ?thesis by simp
  next
    case False
    with Cons.prems obtain j where j: "Index cs sep = Some j" "i = Suc j" by auto
    from Cons.IH [OF j(1)] j(2) show ?thesis by simp
  qed
qed

lemma Index_first:
  "Index s sep = Some i \<Longrightarrow> j < i \<Longrightarrow> \<not> prefix sep (drop j s)"
proof (induction s arbitrary: i j)
  case Nil
  then show ?case by (simp split: if_splits)
next
  case (Cons c cs)
  from Cons.prems have np: "\<not> prefix sep (c # cs)" by (auto split: if_splits)
  with Cons.prems obtain k where k: "Index cs sep = Some k" "i = Suc k" by auto
  show ?case
  proof (cases j)
    case 0
    with np show ?thesis by simp
  next
    case (Suc j')
    with Cons.prems k have "j' < k" by simp
    from Cons.IH [OF k(1) this] Suc show ?thesis by simp
  qed
qed

lemma rankingSection_eq:
  assumes "Index s marker = Some i"
  shows "Split s marker ! 1 =
           (let rest = drop (i + length marker) s
            in case Index rest marker of None \<Rightarrow> rest | Some j \<Rightarrow> take j rest)"
proof -
  obtain p ps where m: "marker = p # ps" by (simp add: marker_def)
  have "Split s marker = take i s # Split (drop (i + length marker) s) marker"
    using assms unfolding m by simp
  moreover have "Split r marker ! 0 = (case Index r marker of None \<Rightarrow> r | Some j \<Rightarrow> take j r)"
    for r unfolding m by (cases "Index r (p # ps)") simp_all
  ultimately show ?thesis by (simp add: Let_def)
qed

text \<open>\<open>Contains\<close> is the usual substring relation.\<close>

lemma Index_append: "\<exists>i. Index (ps @ sub @ ss) sub = Some i"
proof (induction ps)
  case Nil
  show ?case
  proof (cases "sub @ ss")
    case Nil
    then show ?thesis by simp
  next
    case (Cons a list)
    have "prefix sub (a # list)" unfolding Cons [symmetric] by simp
    then show ?thesis unfolding append_Nil Cons by simp
  qed
next
  case (Cons p ps)
  then obtain i where "Index (ps @ sub @ ss) sub = Some i" by blast
  then show ?case by simp
qed

lemma Contains_iff: "Contains s sub \<longleftrightarrow> (\<exists>ps ss. s = ps @ sub @ ss)"
proof
  assume "Contains s sub"
  then obtain i where "Index s sub = Some i" by (auto simp: Contains_def)
  from Index_Some_decomp [OF this] show "\<exists>ps ss. s = ps @ sub @ ss" by blast
next
  assume "\<exists>ps ss. s = ps @ sub @ ss"
  then obtain ps ss where "s = ps @ sub @ ss" by blast
  with Index_append [of ps sub ss] show "Contains s sub" by (auto simp: Contains_def)
qed

lemma Split_nonempty: "Split s (p # ps) \<noteq> []"
  by (cases "Index s (p # ps)") simp_all

lemma Split_no_marker: "\<not> Contains s marker \<Longrightarrow> Split s marker = [s]"
  by (simp add: Contains_def marker_def)

lemma Split_marker_length: "Contains s marker \<Longrightarrow> 2 \<le> length (Split s marker)"
proof -
  assume "Contains s marker"
  then obtain i where i: "Index s marker = Some i" by (auto simp: Contains_def)
  obtain p ps where m: "marker = p # ps" by (simp add: marker_def)
  have "Split (drop (i + length marker) s) marker \<noteq> []"
    unfolding m by (rule Split_nonempty)
  then have "1 \<le> length (Split (drop (i + length marker) s) marker)"
    by (cases "Split (drop (i + length marker) s) marker") simp_all
  moreover have "Split s marker = take i s # Split (drop (i + length marker) s) marker"
    using i unfolding m by simp
  ultimately show ?thesis by simp
qed

lemma responsePattern_Some:
  assumes "responsePattern s = Some n"
  shows "n = 10 \<and> (\<exists>u rest. s = ''Response '' @ u # rest \<and> isUpper u)"
proof -
  from assms obtain u rest where d: "drop 9 s = u # rest"
    by (cases "drop 9 s") (auto simp: responsePattern_def)
  with assms have t: "take 9 s = ''Response ''" and u: "isUpper u" and n: "n = 10"
    by (auto simp: responsePattern_def split: if_splits)
  have "s = take 9 s @ drop 9 s" by simp
  with d t have "s = ''Response '' @ u # rest" by metis
  with u n show ?thesis by blast
qed

lemma responsePattern_label:
  "isUpper u \<Longrightarrow> responsePattern (''Response '' @ u # rest) = Some 10"
  by (simp add: responsePattern_def)

lemma responsePattern_first:
  "c \<noteq> CHR ''R'' \<Longrightarrow> responsePattern (c # cs) = None"
  by (cases "drop 8 cs") (auto simp: responsePattern_def)

lemma FindAll_response_skip:
  "\<forall>c \<in> set pre. c \<noteq> CHR ''R'' \<Longrightarrow>
   FindAllString responsePattern (pre @ s) = FindAllString responsePattern s"
  by (induction pre) (simp_all add: responsePattern_first)

lemma isDigit_not_R: "isDigit c \<Longrightarrow> c \<noteq> CHR ''R''"
  by (auto simp: isDigit_def)

lemma isSpace_not_R: "isSpace c \<Longrightarrow> c \<noteq> CHR ''R''"
  by (auto simp: isSpace_def)

lemma numberedPattern_Some:
  assumes "numberedPattern s = Some n"
  shows "\<exists>ds ws u rest. s = ds @ CHR ''.'' # ws @ ''Response '' @ u # rest \<and>
           ds \<noteq> [] \<and> list_all isDigit ds \<and> list_all isSpace ws \<and> isUpper u \<and>
           n = length ds + 1 + length ws + 10"
proof -
  define ds where "ds = takeWhile isDigit s"
  from assms have ne: "ds \<noteq> []"
    by (auto simp: numberedPattern_def Let_def ds_def split: if_splits)
  from assms ne obtain r1 k where r1: "dropWhile isDigit s = CHR ''.'' # r1"
    and k: "responsePattern (dropWhile isSpace r1) = Some k"
    and n0: "n = length ds + 1 + length (takeWhile isSpace r1) + k"
    unfolding numberedPattern_def Let_def ds_def
    by (auto split: if_splits list.splits option.splits)
  define ws where "ws = takeWhile isSpace r1"
  from n0 have n: "n = length ds + 1 + length ws + k" by (simp add: ws_def)
  from responsePattern_Some [OF k] obtain u rest where
    lab: "dropWhile isSpace r1 = ''Response '' @ u # rest" and u: "isUpper u" and k10: "k = 10"
    by blast
  have "s = ds @ dropWhile isDigit s" by (simp add: ds_def)
  also have "dropWhile isDigit s = CHR ''.'' # ws @ dropWhile isSpace r1"
    by (simp add: r1 ws_def)
  finally have "s = ds @ CHR ''.'' # ws @ ''Response '' @ u # rest"
    using lab by simp
  moreover have "list_all isDigit ds" "list_all isSpace ws"
    by (simp_all add: ds_def ws_def list_all_iff) (meson set_takeWhileD)+
  ultimately show ?thesis using ne u n k10 by blast
qed



text \<open>With \<open>numberedPattern_Some\<close>: the matcher accepts exactly the prefixes that the
  regular expression describes.\<close>

lemma numberedPattern_complete:
  assumes "ds \<noteq> []" "list_all isDigit ds" "list_all isSpace ws" "isUpper u"
  shows "numberedPattern (ds @ CHR ''.'' # ws @ ''Response '' @ u # rest)
           = Some (length ds + 1 + length ws + 10)"
proof -
  let ?tail = "CHR ''.'' # ws @ ''Response '' @ u # rest"
  have nd: "\<not> isDigit CHR ''.''" and ns: "\<not> isSpace CHR ''R''"
    by (simp_all add: isDigit_def isSpace_def)
  have t: "takeWhile isDigit (ds @ ?tail) = ds"
    using assms(2) nd by (simp add: takeWhile_append2 list_all_iff)
  have d: "dropWhile isDigit (ds @ ?tail) = ?tail"
    using assms(2) nd by (simp add: dropWhile_append2 list_all_iff)
  have tw: "takeWhile isSpace (ws @ ''Response '' @ u # rest) = ws"
    using assms(3) ns by (simp add: takeWhile_append2 list_all_iff)
  have dw: "dropWhile isSpace (ws @ ''Response '' @ u # rest) = ''Response '' @ u # rest"
    using assms(3) ns by (simp add: dropWhile_append2 list_all_iff)
  have r: "responsePattern (dropWhile isSpace (ws @ ''Response '' @ u # rest)) = Some 10"
    unfolding dw by (rule responsePattern_label [OF assms(4)])
  show ?thesis
    unfolding numberedPattern_def Let_def t d
    using assms(1) r tw by simp
qed

lemma FindAllString_member:
  "m \<in> set (FindAllString re s) \<Longrightarrow> \<exists>t n. re t = Some n \<and> m = take n t"
proof (induction re s rule: FindAllString.induct)
  case (1 re)
  then show ?case by simp
next
  case (2 re c cs)
  then show ?case by (cases "re (c # cs)") auto
qed

lemma numbered_match_form:
  assumes "numberedPattern t = Some n"
  shows "\<exists>ds ws u. take n t = ds @ CHR ''.'' # ws @ ''Response '' @ [u] \<and>
           ds \<noteq> [] \<and> list_all isDigit ds \<and> list_all isSpace ws \<and> isUpper u"
proof -
  from numberedPattern_Some [OF assms] obtain ds ws u rest where
    t: "t = ds @ CHR ''.'' # ws @ ''Response '' @ u # rest" and
    p: "ds \<noteq> []" "list_all isDigit ds" "list_all isSpace ws" "isUpper u" and
    n: "n = length ds + 1 + length ws + 10"
    by blast
  define m where "m = ds @ CHR ''.'' # ws @ ''Response '' @ [u]"
  have "t = m @ rest" "n = length m" by (simp_all add: t n m_def)
  then have "take n t = m" by simp
  then have "take n t = ds @ CHR ''.'' # ws @ ''Response '' @ [u]"
    by (simp only: m_def)
  with p show ?thesis by blast
qed

lemma label_of_numbered_match:
  assumes "ds \<noteq> []" "list_all isDigit ds" "list_all isSpace ws" "isUpper u"
    and m: "m = ds @ CHR ''.'' # ws @ ''Response '' @ [u]"
  shows "FindString responsePattern m = ''Response '' @ [u]"
    and "embeddedLabel m = ''Response '' @ [u]"
proof -
  have "FindAllString responsePattern m
      = FindAllString responsePattern (CHR ''.'' # ws @ ''Response '' @ [u])"
    unfolding m using assms(2) by (intro FindAll_response_skip) (auto simp: list_all_iff isDigit_not_R)
  also have "\<dots> = FindAllString responsePattern (ws @ ''Response '' @ [u])"
    by (simp add: responsePattern_first)
  also have "\<dots> = FindAllString responsePattern (''Response '' @ [u])"
    using assms(3) by (intro FindAll_response_skip) (auto simp: list_all_iff isSpace_not_R)
  also have "\<dots> = [''Response '' @ [u]]"
    using responsePattern_label [OF assms(4), of "[]"] by simp
  finally show "FindString responsePattern m = ''Response '' @ [u]"
    by (simp add: FindString_def)
  have nd: "\<not> isDigit CHR ''.''" and ns: "\<not> isSpace CHR ''R''"
    by (simp_all add: isDigit_def isSpace_def)
  have "dropWhile isDigit m = CHR ''.'' # ws @ ''Response '' @ [u]"
    unfolding m using assms(2) nd by (simp add: dropWhile_append2 list_all_iff)
  moreover have "dropWhile isSpace (ws @ ''Response '' @ [u]) = ''Response '' @ [u]"
    using assms(3) ns by (simp add: dropWhile_append2 list_all_iff)
  ultimately show "embeddedLabel m = ''Response '' @ [u]"
    by (simp add: embeddedLabel_def)
qed

lemma concat_map_single:
  "(\<And>x. x \<in> set xs \<Longrightarrow> f x = [g x]) \<Longrightarrow> concat (map f xs) = map g xs"
  by (induction xs) simp_all

lemma numbered_matches_labels:
  "concat (map (\<lambda>match. if FindString responsePattern match \<noteq> []
                         then [FindString responsePattern match] else [])
               (FindAllString numberedPattern sec))
   = map embeddedLabel (FindAllString numberedPattern sec)"
proof -
  have "(if FindString responsePattern m \<noteq> [] then [FindString responsePattern m] else [])
        = [embeddedLabel m]"
    if "m \<in> set (FindAllString numberedPattern sec)" for m
  proof -
    from FindAllString_member [OF that] obtain t n where
      "numberedPattern t = Some n" "m = take n t" by blast
    with numbered_match_form obtain ds ws u where
      f: "m = ds @ CHR ''.'' # ws @ ''Response '' @ [u]"
         "ds \<noteq> []" "list_all isDigit ds" "list_all isSpace ws" "isUpper u"
      by metis
    from label_of_numbered_match [OF f(2-5) f(1)] show ?thesis by simp
  qed
  then show ?thesis by (rule concat_map_single)
qed

text \<open>
  The character classes and the two matchers, against the notions of the specification:
  a class is its list of characters, and a matcher accepts at a position exactly when the
  text has an occurrence there.
\<close>

lemma class_member:
  assumes "lo \<le> (of_char c :: nat)" "(of_char c :: nat) < hi"
  shows "c \<in> set (map char_of [lo..<hi])"
proof -
  have "char_of (of_char c :: nat) \<in> char_of ` set [lo..<hi]"
    using assms by (intro imageI) simp
  then show ?thesis by simp
qed

lemma isUpper_iff: "isUpper c \<longleftrightarrow> c \<in> set ''ABCDEFGHIJKLMNOPQRSTUVWXYZ''"
proof
  assume "isUpper c"
  then have "c \<in> set (map char_of [65..<91 :: nat])"
    by (intro class_member) (simp_all add: isUpper_def)
  also have "map char_of [65..<91 :: nat] = ''ABCDEFGHIJKLMNOPQRSTUVWXYZ''"
    by code_simp
  finally show "c \<in> set ''ABCDEFGHIJKLMNOPQRSTUVWXYZ''" .
next
  assume "c \<in> set ''ABCDEFGHIJKLMNOPQRSTUVWXYZ''"
  then show "isUpper c" by (auto simp: isUpper_def)
qed

lemma isDigit_iff: "isDigit c \<longleftrightarrow> c \<in> set ''0123456789''"
proof
  assume "isDigit c"
  then have "c \<in> set (map char_of [48..<58 :: nat])"
    by (intro class_member) (simp_all add: isDigit_def)
  also have "map char_of [48..<58 :: nat] = ''0123456789''"
    by code_simp
  finally show "c \<in> set ''0123456789''" .
next
  assume "c \<in> set ''0123456789''"
  then show "isDigit c" by (auto simp: isDigit_def)
qed

lemma isSpace_iff:
  "isSpace c \<longleftrightarrow> c \<in> set [CHR 0x09, CHR 0x0A, CHR 0x0C, CHR 0x0D, CHR '' '']"
proof
  assume "isSpace c"
  then have "(of_char c :: nat) \<in> set [9, 10, 12, 13, 32]" by (simp add: isSpace_def)
  then have "char_of (of_char c :: nat) \<in> char_of ` set [9, 10, 12, 13, 32 :: nat]"
    by (rule imageI)
  then have "c \<in> set (map char_of [9, 10, 12, 13, 32 :: nat])" by simp
  also have "map char_of [9, 10, 12, 13, 32 :: nat]
      = [CHR 0x09, CHR 0x0A, CHR 0x0C, CHR 0x0D, CHR '' '']"
    by code_simp
  finally show "c \<in> set [CHR 0x09, CHR 0x0A, CHR 0x0C, CHR 0x0D, CHR '' '']" .
next
  assume "c \<in> set [CHR 0x09, CHR 0x0A, CHR 0x0C, CHR 0x0D, CHR '' '']"
  then show "isSpace c" by (auto simp: isSpace_def)
qed

lemma responsePattern_iff:
  "responsePattern (drop p s) = Some n \<longleftrightarrow> n = 10 \<and> responseAt s p"
proof
  assume "responsePattern (drop p s) = Some n"
  from responsePattern_Some [OF this] obtain u rest where
    n: "n = 10" and d: "drop p s = ''Response '' @ u # rest" and u: "isUpper u"
    by blast
  have "take 10 (drop p s) = ''Response '' @ [u]" unfolding d by simp
  with u n show "n = 10 \<and> responseAt s p"
    unfolding responseAt_def list_ex_iff isUpper_iff by blast
next
  assume "n = 10 \<and> responseAt s p"
  then obtain u where n: "n = 10" and u: "isUpper u"
    and t: "take 10 (drop p s) = ''Response '' @ [u]"
    unfolding responseAt_def list_ex_iff isUpper_iff by blast
  have "drop p s = take 10 (drop p s) @ drop 10 (drop p s)"
    by (rule append_take_drop_id [symmetric])
  then have "drop p s = ''Response '' @ u # drop 10 (drop p s)"
    unfolding t by simp
  with responsePattern_label [OF u, of "drop 10 (drop p s)"] n
  show "responsePattern (drop p s) = Some n" by simp
qed

lemma numberedPattern_iff:
  "numberedPattern (drop p s) = Some n \<longleftrightarrow> numberedAt s p n"
proof
  assume "numberedPattern (drop p s) = Some n"
  from numberedPattern_Some [OF this] obtain ds ws u rest where
    d: "drop p s = ds @ CHR ''.'' # ws @ ''Response '' @ u # rest" and
    c: "ds \<noteq> []" "list_all isDigit ds" "list_all isSpace ws" "isUpper u" and
    n: "n = length ds + 1 + length ws + 10"
    by blast
  define m where "m = ds @ ''.'' @ ws @ ''Response '' @ [u]"
  have "drop p s = m @ rest" "n = length m" by (simp_all add: d n m_def)
  then have "take n (drop p s) = m" by simp
  with c n show "numberedAt s p n"
    unfolding numberedAt_def m_def
    by (auto simp: list_all_iff isDigit_iff isSpace_iff isUpper_iff simp del: set_simps)
next
  assume "numberedAt s p n"
  then obtain ds ws u where
    t: "take n (drop p s) = ds @ ''.'' @ ws @ ''Response '' @ [u]" and
    n: "n = length ds + 1 + length ws + 10" and
    c: "ds \<noteq> []" "list_all isDigit ds" "list_all isSpace ws" "isUpper u"
    unfolding numberedAt_def list_all_iff isDigit_iff isSpace_iff isUpper_iff by blast
  define rest where "rest = drop n (drop p s)"
  have "drop p s = take n (drop p s) @ rest"
    unfolding rest_def by (rule append_take_drop_id [symmetric])
  then have d: "drop p s = ds @ CHR ''.'' # ws @ ''Response '' @ u # rest"
    unfolding t by simp
  show "numberedPattern (drop p s) = Some n"
    unfolding d n by (rule numberedPattern_complete [OF c])
qed

text \<open>
  \<open>FindAllString\<close> scans from the left: its matches start where the matcher accepts,
  none begins before the previous one has ended, and every position where the matcher
  accepts lies inside one of them.
\<close>

lemma scan_step:
  assumes k: "k < length s"
  shows "re (drop k s) = None \<Longrightarrow>
           FindAllStringIndex re k (drop k s) = FindAllStringIndex re (Suc k) (drop (Suc k) s)
           \<and> FindAllString re (drop k s) = FindAllString re (drop (Suc k) s)"
    and "re (drop k s) = Some n \<Longrightarrow> 1 \<le> n \<Longrightarrow>
           FindAllStringIndex re k (drop k s)
             = (k, n) # FindAllStringIndex re (k + n) (drop (k + n) s)
           \<and> FindAllString re (drop k s)
             = take n (drop k s) # FindAllString re (drop (k + n) s)"
proof -
  from k have d: "drop k s = s ! k # drop (Suc k) s"
    by (rule Cons_nth_drop_Suc [symmetric])
  show "re (drop k s) = None \<Longrightarrow>
           FindAllStringIndex re k (drop k s) = FindAllStringIndex re (Suc k) (drop (Suc k) s)
           \<and> FindAllString re (drop k s) = FindAllString re (drop (Suc k) s)"
    by (simp add: d)
  assume r: "re (drop k s) = Some n" and n: "1 \<le> n"
  from n have "drop (n - 1) (drop (Suc k) s) = drop (k + n) s"
    by (simp add: add.commute)
  with r show "FindAllStringIndex re k (drop k s)
             = (k, n) # FindAllStringIndex re (k + n) (drop (k + n) s)
           \<and> FindAllString re (drop k s)
             = take n (drop k s) # FindAllString re (drop (k + n) s)"
    by (simp add: d)
qed

lemma scan:
  assumes wf: "\<And>t n. re t = Some n \<Longrightarrow> 1 \<le> n \<and> n \<le> length t"
  shows "FindAllString re (drop k s)
           = map (\<lambda>(p, n). take n (drop p s)) (FindAllStringIndex re k (drop k s))
     \<and> (\<forall>(p, n) \<in> set (FindAllStringIndex re k (drop k s)). k \<le> p \<and> re (drop p s) = Some n)
     \<and> sorted_wrt (\<lambda>(p, n) (q, m). p + n \<le> q) (FindAllStringIndex re k (drop k s))
     \<and> (\<forall>q. k \<le> q \<and> re (drop q s) \<noteq> None \<longrightarrow>
           (\<exists>(p, n) \<in> set (FindAllStringIndex re k (drop k s)). p \<le> q \<and> q < p + n))"
proof (induction "length s - k" arbitrary: k rule: less_induct)
  case less
  show ?case
  proof (cases "k < length s")
    case False
    then have e: "drop k s = []" by simp
    have "re (drop q s) = None" if "k \<le> q" for q
    proof (cases "re (drop q s)")
      case None
      then show ?thesis .
    next
      case (Some n)
      from wf [OF Some] that False show ?thesis by simp
    qed
    then show ?thesis by (simp add: e)
  next
    case True
    show ?thesis
    proof (cases "re (drop k s)")
      case None
      from True have "length s - Suc k < length s - k" by simp
      note IH = less [OF this]
      from scan_step(1) [of k s re, OF True None] have
        eq: "FindAllStringIndex re k (drop k s) = FindAllStringIndex re (Suc k) (drop (Suc k) s)"
            "FindAllString re (drop k s) = FindAllString re (drop (Suc k) s)"
        by simp_all
      have cov: "\<exists>(p, n) \<in> set (FindAllStringIndex re (Suc k) (drop (Suc k) s)).
                   p \<le> q \<and> q < p + n"
        if "k \<le> q" "re (drop q s) \<noteq> None" for q
      proof -
        from that None have "q \<noteq> k" by auto
        with that(1) have "Suc k \<le> q" by simp
        with IH that(2) show ?thesis by blast
      qed
      from IH have mem: "\<forall>(p, n) \<in> set (FindAllStringIndex re (Suc k) (drop (Suc k) s)).
                     k \<le> p \<and> re (drop p s) = Some n"
        by fastforce
      from IH cov mem show ?thesis unfolding eq by blast
    next
      case (Some n)
      from wf [OF Some] have n: "1 \<le> n" "n \<le> length s - k" by simp_all
      with True have "length s - (k + n) < length s - k" by simp
      note IH = less [OF this]
      let ?rest = "FindAllStringIndex re (k + n) (drop (k + n) s)"
      from scan_step(2) [of k s re n, OF True Some n(1)] have
        eq: "FindAllStringIndex re k (drop k s) = (k, n) # ?rest"
            "FindAllString re (drop k s) = take n (drop k s) # FindAllString re (drop (k + n) s)"
        by simp_all
      from IH have mem: "\<forall>(p, m) \<in> set ?rest. k + n \<le> p \<and> re (drop p s) = Some m"
        by blast
      have 1: "FindAllString re (drop k s)
           = map (\<lambda>(p, n). take n (drop p s)) ((k, n) # ?rest)"
        using IH by (simp add: eq)
      have 2: "\<forall>(p, m) \<in> set ((k, n) # ?rest). k \<le> p \<and> re (drop p s) = Some m"
        using mem Some by fastforce
      have 3: "sorted_wrt (\<lambda>(p, n) (q, m). p + n \<le> q) ((k, n) # ?rest)"
        using IH mem by fastforce
      have 4: "\<exists>(p, m) \<in> set ((k, n) # ?rest). p \<le> q \<and> q < p + m"
        if "k \<le> q" "re (drop q s) \<noteq> None" for q
      proof (cases "q < k + n")
        case True
        with that(1) show ?thesis by simp
      next
        case False
        then have "k + n \<le> q" by simp
        with IH that(2) have "\<exists>(p, m) \<in> set ?rest. p \<le> q \<and> q < p + m" by blast
        then show ?thesis by auto
      qed
      from 1 2 3 4 show ?thesis unfolding eq(1) by blast
    qed
  qed
qed

lemma responseAt_bound: "responseAt s p \<Longrightarrow> p + 10 \<le> length s"
proof -
  assume "responseAt s p"
  then obtain u where "take 10 (drop p s) = ''Response '' @ [u]"
    unfolding responseAt_def list_ex_iff by blast
  then have "length (take 10 (drop p s)) = 10" by simp
  then show ?thesis by simp
qed

lemma response_scan:
  "\<exists>ps. FindAllString responsePattern t = map (\<lambda>p. take 10 (drop p t)) ps
     \<and> sorted_wrt (\<lambda>p q. p + 10 \<le> q) ps
     \<and> (\<forall>p \<in> set ps. responseAt t p)
     \<and> (\<forall>q. responseAt t q \<longrightarrow> (\<exists>p \<in> set ps. p \<le> q \<and> q < p + 10))"
proof -
  let ?ms = "FindAllStringIndex responsePattern 0 (drop 0 t)"
  have wf: "1 \<le> n \<and> n \<le> length u" if "responsePattern u = Some n" for u n
    using responsePattern_Some [OF that] by auto
  from scan [of responsePattern 0 t, OF wf] have
    a: "FindAllString responsePattern t = map (\<lambda>(p, n). take n (drop p t)) ?ms" and
    b: "\<forall>(p, n) \<in> set ?ms. responsePattern (drop p t) = Some n" and
    c: "sorted_wrt (\<lambda>(p, n) (q, m). p + n \<le> q) ?ms" and
    d: "\<forall>q. responsePattern (drop q t) \<noteq> None \<longrightarrow>
           (\<exists>(p, n) \<in> set ?ms. p \<le> q \<and> q < p + n)"
    by simp_all
  from b have ten: "\<forall>(p, n) \<in> set ?ms. n = 10 \<and> responseAt t p"
    by (auto simp: responsePattern_iff)
  have 1: "FindAllString responsePattern t = map (\<lambda>p. take 10 (drop p t)) (map fst ?ms)"
    unfolding a using ten by (auto simp: case_prod_beta)
  have 2: "sorted_wrt (\<lambda>p q. p + 10 \<le> q) (map fst ?ms)"
    unfolding sorted_wrt_map
    by (rule sorted_wrt_mono_rel [OF _ c]) (use ten in auto)
  have 3: "\<forall>p \<in> set (map fst ?ms). responseAt t p"
    using ten by auto
  have 4: "\<exists>p \<in> set (map fst ?ms). p \<le> q \<and> q < p + 10" if "responseAt t q" for q
  proof -
    from that have "responsePattern (drop q t) \<noteq> None"
      using responsePattern_iff [of q t 10] by simp
    with d obtain p n where "(p, n) \<in> set ?ms" "p \<le> q" "q < p + n" by blast
    with ten show ?thesis by force
  qed
  from 1 2 3 4 show ?thesis by blast
qed

lemma numbered_scan:
  "\<exists>ms. FindAllString numberedPattern t = map (\<lambda>(p, n). take n (drop p t)) ms
     \<and> sorted_wrt (\<lambda>(p, n) (q, m). p + n \<le> q) ms
     \<and> (\<forall>(p, n) \<in> set ms. numberedAt t p n)
     \<and> (\<forall>q m. numberedAt t q m \<longrightarrow> (\<exists>(p, n) \<in> set ms. p \<le> q \<and> q < p + n))"
proof -
  let ?ms = "FindAllStringIndex numberedPattern 0 (drop 0 t)"
  have wf: "1 \<le> n \<and> n \<le> length u" if "numberedPattern u = Some n" for u n
    using numberedPattern_Some [OF that] by auto
  from scan [of numberedPattern 0 t, OF wf] have
    a: "FindAllString numberedPattern t = map (\<lambda>(p, n). take n (drop p t)) ?ms" and
    b: "\<forall>(p, n) \<in> set ?ms. numberedPattern (drop p t) = Some n" and
    c: "sorted_wrt (\<lambda>(p, n) (q, m). p + n \<le> q) ?ms" and
    d: "\<forall>q. numberedPattern (drop q t) \<noteq> None \<longrightarrow>
           (\<exists>(p, n) \<in> set ?ms. p \<le> q \<and> q < p + n)"
    by simp_all
  from b have 3: "\<forall>(p, n) \<in> set ?ms. numberedAt t p n"
    by (auto simp: numberedPattern_iff)
  have 4: "\<exists>(p, n) \<in> set ?ms. p \<le> q \<and> q < p + n" if "numberedAt t q m" for q m
  proof -
    from that have "numberedPattern (drop q t) \<noteq> None"
      using numberedPattern_iff [of q t m] by simp
    with d show ?thesis by blast
  qed
  from a c 3 4 show ?thesis by blast
qed

lemma Index_None_no_prefix: "Index s sep = None \<Longrightarrow> \<not> prefix sep (drop j s)"
proof (induction s arbitrary: j)
  case Nil
  then show ?case by (simp split: if_splits)
next
  case (Cons c cs)
  from Cons.prems have np: "\<not> prefix sep (c # cs)" and r: "Index cs sep = None"
    by (auto split: if_splits)
  show ?case
  proof (cases j)
    case 0
    with np show ?thesis by simp
  next
    case (Suc j')
    with Cons.IH [OF r, of j'] show ?thesis by simp
  qed
qed

lemma rankingSection_decomp:
  assumes "Contains s marker"
  shows "\<exists>pre rest. s = pre @ marker @ (Split s marker ! 1) @ rest
           \<and> (\<forall>j < length pre. \<not> prefix marker (drop j s))
           \<and> (\<forall>j < length (Split s marker ! 1).
                 \<not> prefix marker (drop j ((Split s marker ! 1) @ rest)))
           \<and> (rest = [] \<or> prefix marker rest)"
proof -
  from assms obtain i where i: "Index s marker = Some i" by (auto simp: Contains_def)
  define post where "post = drop (i + length marker) s"
  from Index_Some_decomp [OF i] have s: "s = take i s @ marker @ post"
    by (simp add: post_def)
  from Index_Some_bound [OF i] have li: "length (take i s) = i" by simp
  have first: "\<forall>j < length (take i s). \<not> prefix marker (drop j s)"
    unfolding li using Index_first [OF i] by blast
  have sec: "Split s marker ! 1 = (case Index post marker of None \<Rightarrow> post | Some j \<Rightarrow> take j post)"
    using rankingSection_eq [OF i] unfolding Let_def post_def [symmetric] by simp
  show ?thesis
  proof (cases "Index post marker")
    case None
    with sec have e: "Split s marker ! 1 = post" by simp
    have "\<forall>j < length post. \<not> prefix marker (drop j (post @ []))"
      using Index_None_no_prefix [OF None] by simp
    with s first show ?thesis unfolding e
      by (intro exI [of _ "take i s"] exI [of _ "[]"]) simp
  next
    case (Some j)
    with sec have e: "Split s marker ! 1 = take j post" by simp
    from Index_Some_bound [OF Some] have lj: "length (take j post) = j" by simp
    from Index_Some_decomp [OF Some]
    have p: "post = take j post @ marker @ drop (j + length marker) post" .
    have r: "drop j post = marker @ drop (j + length marker) post"
      using p lj by (metis append_eq_conv_conj)
    have "\<forall>j' < length (take j post). \<not> prefix marker (drop j' (take j post @ drop j post))"
      unfolding lj using Index_first [OF Some] by simp
    moreover have "s = take i s @ marker @ take j post @ drop j post"
      using s by simp
    moreover have "prefix marker (drop j post)"
      unfolding r by simp
    ultimately show ?thesis unfolding e using first
      by (intro exI [of _ "take i s"] exI [of _ "drop j post"]) blast
  qed
qed

lemma numberedAt_label:
  assumes "numberedAt t p n"
  shows "\<exists>u \<in> set ''ABCDEFGHIJKLMNOPQRSTUVWXYZ''.
           embeddedLabel (take n (drop p t)) = ''Response '' @ [u]
           \<and> drop (n - 10) (take n (drop p t)) = ''Response '' @ [u]"
proof -
  from assms obtain ds ws u where
    t: "take n (drop p t) = ds @ ''.'' @ ws @ ''Response '' @ [u]" and
    n: "n = length ds + 1 + length ws + 10" and
    c: "ds \<noteq> []" "list_all isDigit ds" "list_all isSpace ws" "isUpper u"
    unfolding numberedAt_def list_all_iff isDigit_iff isSpace_iff isUpper_iff by blast
  have m: "take n (drop p t) = ds @ CHR ''.'' # ws @ ''Response '' @ [u]"
    unfolding t by simp
  have "drop (n - 10) (take n (drop p t))
      = drop (n - 10) (ds @ CHR ''.'' # ws @ ''Response '' @ [u])"
    by (simp only: m)
  also have "\<dots> = ''Response '' @ [u]"
    by (simp add: n)
  finally have "drop (n - 10) (take n (drop p t)) = ''Response '' @ [u]" .
  with label_of_numbered_match(2) [OF c m] c(4) show ?thesis
    unfolding isUpper_iff by blast
qed

lemma no_overlap_check:
  assumes "list_all (\<lambda>p. list_all (\<lambda>q. p < q \<longrightarrow> p + 10 \<le> q) (filter (responseAt s) [0..<length s]))
             (filter (responseAt s) [0..<length s])"
  shows "\<forall>p q. responseAt s p \<and> responseAt s q \<and> p < q \<longrightarrow> p + 10 \<le> q"
proof (intro allI impI)
  fix p q assume h: "responseAt s p \<and> responseAt s q \<and> p < q"
  then have "p \<in> set (filter (responseAt s) [0..<length s])"
    "q \<in> set (filter (responseAt s) [0..<length s])"
    using responseAt_bound [of s p] responseAt_bound [of s q] by simp_all
  with assms h show "p + 10 \<le> q" unfolding list_all_iff by blast
qed

text \<open>
  Claim C6, as amended. Let the input contain the marker, and let the ranking section of
  the code (\<open>parts[1]\<close>) hold at least one match of a decimal number, a period, optional
  whitespace and \<open>Response\<close> with one capital letter. Then \<open>ParseRankingFromText\<close>
  returns the labels (the last ten bytes) of matches of that form found in the section at
  increasing positions, none beginning before the previous one has ended, and every match
  of that form in the section begins inside one of them; each returned string is
  \<open>Response\<close>, a space and a capital letter, so the printed numbers play no part. The
  ranking section is not all the text after the marker: it starts after the first
  occurrence of the marker and ends before the next occurrence, or at the end of the text
  when there is none. The example of the specification is the last conjunct.
\<close>

theorem parse_numbered:
  "(Contains s marker \<and> (\<exists>q m. numberedAt (Split s marker ! 1) q m) \<longrightarrow>
      (\<exists>ms. ParseRankingFromText s
               = map (\<lambda>(p, n). drop (n - 10) (take n (drop p (Split s marker ! 1)))) ms
          \<and> sorted_wrt (\<lambda>(p, n) (q, m). p + n \<le> q) ms
          \<and> (\<forall>(p, n) \<in> set ms. numberedAt (Split s marker ! 1) p n)
          \<and> (\<forall>q m. numberedAt (Split s marker ! 1) q m
                 \<longrightarrow> (\<exists>(p, n) \<in> set ms. p \<le> q \<and> q < p + n)))
      \<and> list_all (\<lambda>l. list_ex (\<lambda>u. l = ''Response '' @ [u]) ''ABCDEFGHIJKLMNOPQRSTUVWXYZ'')
           (ParseRankingFromText s)
      \<and> (\<exists>pre rest. s = pre @ marker @ (Split s marker ! 1) @ rest
             \<and> (\<forall>j < length pre. \<not> prefix marker (drop j s))
             \<and> (\<forall>j < length (Split s marker ! 1).
                   \<not> prefix marker (drop j ((Split s marker ! 1) @ rest)))
             \<and> (rest = [] \<or> prefix marker rest)))
   \<and> ParseRankingFromText ''FINAL RANKING:\<newline>1. Response B\<newline>2. Response A\<newline>3. Response C''
       = [''Response B'', ''Response A'', ''Response C'']"
proof (intro conjI impI)
  let ?sec = "Split s marker ! 1"
  assume h: "Contains s marker \<and> (\<exists>q m. numberedAt ?sec q m)"
  from numbered_scan [of ?sec] obtain ms where
    a: "FindAllString numberedPattern ?sec = map (\<lambda>(p, n). take n (drop p ?sec)) ms" and
    b: "sorted_wrt (\<lambda>(p, n) (q, m). p + n \<le> q) ms" and
    c: "\<forall>(p, n) \<in> set ms. numberedAt ?sec p n" and
    d: "\<forall>q m. numberedAt ?sec q m \<longrightarrow> (\<exists>(p, n) \<in> set ms. p \<le> q \<and> q < p + n)"
    by blast
  from h d have "ms \<noteq> []" by fastforce
  with a have ne: "FindAllString numberedPattern ?sec \<noteq> []" by simp
  with h Split_marker_length [of s]
  have "ParseRankingFromText s = map embeddedLabel (FindAllString numberedPattern ?sec)"
    by (simp add: ParseRankingFromText_def Let_def numbered_matches_labels)
  also have "\<dots> = map (\<lambda>(p, n). embeddedLabel (take n (drop p ?sec))) ms"
    unfolding a by (simp add: comp_def case_prod_beta)
  also have "\<dots> = map (\<lambda>(p, n). drop (n - 10) (take n (drop p ?sec))) ms"
    using c numberedAt_label by (intro map_cong) fastforce+
  finally have e: "ParseRankingFromText s
      = map (\<lambda>(p, n). drop (n - 10) (take n (drop p ?sec))) ms" .
  from e b c d
  show "\<exists>ms. ParseRankingFromText s
               = map (\<lambda>(p, n). drop (n - 10) (take n (drop p ?sec))) ms
          \<and> sorted_wrt (\<lambda>(p, n) (q, m). p + n \<le> q) ms
          \<and> (\<forall>(p, n) \<in> set ms. numberedAt ?sec p n)
          \<and> (\<forall>q m. numberedAt ?sec q m
                 \<longrightarrow> (\<exists>(p, n) \<in> set ms. p \<le> q \<and> q < p + n))"
    by blast
  have "list_ex (\<lambda>u. l = ''Response '' @ [u]) ''ABCDEFGHIJKLMNOPQRSTUVWXYZ''"
    if "l \<in> set (ParseRankingFromText s)" for l
  proof -
    from that obtain p n where "(p, n) \<in> set ms" "l = drop (n - 10) (take n (drop p ?sec))"
      unfolding e by auto
    with c numberedAt_label [of ?sec p n] show ?thesis
      unfolding list_ex_iff by fastforce
  qed
  then show "list_all (\<lambda>l. list_ex (\<lambda>u. l = ''Response '' @ [u]) ''ABCDEFGHIJKLMNOPQRSTUVWXYZ'')
           (ParseRankingFromText s)"
    unfolding list_all_iff by blast
  from h rankingSection_decomp [of s]
  show "\<exists>pre rest. s = pre @ marker @ ?sec @ rest
             \<and> (\<forall>j < length pre. \<not> prefix marker (drop j s))
             \<and> (\<forall>j < length ?sec. \<not> prefix marker (drop j (?sec @ rest)))
             \<and> (rest = [] \<or> prefix marker rest)"
    by blast
next
  show "ParseRankingFromText ''FINAL RANKING:\<newline>1. Response B\<newline>2. Response A\<newline>3. Response C''
       = [''Response B'', ''Response A'', ''Response C'']"
    by code_simp
qed

theorem parse_numbered_witness:
  "Contains ''Response A is good.\<newline>\<newline>FINAL RANKING:\<newline>2. Response C\<newline>1.  Response A\<newline>3. Response d\<newline>FINAL RANKING:\<newline>4. Response B'' marker
   \<and> Split ''Response A is good.\<newline>\<newline>FINAL RANKING:\<newline>2. Response C\<newline>1.  Response A\<newline>3. Response d\<newline>FINAL RANKING:\<newline>4. Response B'' marker ! 1
       = ''\<newline>2. Response C\<newline>1.  Response A\<newline>3. Response d\<newline>''
   \<and> numberedAt ''\<newline>2. Response C\<newline>1.  Response A\<newline>3. Response d\<newline>'' 1 13
   \<and> ParseRankingFromText ''Response A is good.\<newline>\<newline>FINAL RANKING:\<newline>2. Response C\<newline>1.  Response A\<newline>3. Response d\<newline>FINAL RANKING:\<newline>4. Response B''
       = [''Response C'', ''Response A'']
   \<and> (\<exists>ms. [''Response C'', ''Response A'']
          = map (\<lambda>(p, n). drop (n - 10) (take n
                  (drop p ''\<newline>2. Response C\<newline>1.  Response A\<newline>3. Response d\<newline>''))) ms
        \<and> sorted_wrt (\<lambda>(p, n) (q, m). p + n \<le> q) ms
        \<and> (\<forall>(p, n) \<in> set ms.
              numberedAt ''\<newline>2. Response C\<newline>1.  Response A\<newline>3. Response d\<newline>'' p n))"
proof -
  let ?s = "''Response A is good.\<newline>\<newline>FINAL RANKING:\<newline>2. Response C\<newline>1.  Response A\<newline>3. Response d\<newline>FINAL RANKING:\<newline>4. Response B''"
  let ?sec = "''\<newline>2. Response C\<newline>1.  Response A\<newline>3. Response d\<newline>''"
  have c: "Contains ?s marker" by code_simp
  have sec: "Split ?s marker ! 1 = ?sec" by code_simp
  have v: "ParseRankingFromText ?s = [''Response C'', ''Response A'']" by code_simp
  have n: "numberedAt ?sec 1 13"
    unfolding numberedAt_def
    by (intro exI [of _ "''2''"] exI [of _ "'' ''"] exI [of _ "CHR ''C''"]) simp
  then have "\<exists>q m. numberedAt (Split ?s marker ! 1) q m"
    unfolding sec by blast
  with parse_numbered [of ?s] c obtain ms where
    m1: "ParseRankingFromText ?s
       = map (\<lambda>(p, n). drop (n - 10) (take n (drop p (Split ?s marker ! 1)))) ms"
    and m2: "sorted_wrt (\<lambda>(p, n) (q, m). p + n \<le> q) ms"
    and m3: "\<forall>(p, n) \<in> set ms. numberedAt (Split ?s marker ! 1) p n"
    by blast
  have "\<exists>ms. [''Response C'', ''Response A'']
          = map (\<lambda>(p, n). drop (n - 10) (take n (drop p ?sec))) ms
        \<and> sorted_wrt (\<lambda>(p, n) (q, m). p + n \<le> q) ms
        \<and> (\<forall>(p, n) \<in> set ms. numberedAt ?sec p n)"
  proof (rule exI [of _ ms], intro conjI)
    from m1 have "ParseRankingFromText ?s = map (\<lambda>(p, n). drop (n - 10) (take n (drop p ?sec))) ms"
      by (simp only: sec)
    then show "[''Response C'', ''Response A''] = map (\<lambda>(p, n). drop (n - 10) (take n (drop p ?sec))) ms"
      by (simp only: v)
    show "sorted_wrt (\<lambda>(p, n) (q, m). p + n \<le> q) ms" by (rule m2)
    from m3 show "\<forall>(p, n) \<in> set ms. numberedAt ?sec p n" by (simp only: sec)
  qed
  with c sec n v show ?thesis by blast
qed

text \<open>
  Claim C6 as stated fails when the marker occurs twice. The text after the marker holds
  two numbered matches, at positions 1 and 30, and a scan of it finds both; the code scans
  \<open>parts[1]\<close>, which ends at the second marker, and returns the first label only.
\<close>

theorem parse_two_markers_counterexample:
  "Contains ''FINAL RANKING:\<newline>1. Response B\<newline>FINAL RANKING:\<newline>1. Response A'' marker
   \<and> textAfterMarker ''FINAL RANKING:\<newline>1. Response B\<newline>FINAL RANKING:\<newline>1. Response A''
       = ''\<newline>1. Response B\<newline>FINAL RANKING:\<newline>1. Response A''
   \<and> numberedAt ''\<newline>1. Response B\<newline>FINAL RANKING:\<newline>1. Response A'' 1 13
   \<and> numberedAt ''\<newline>1. Response B\<newline>FINAL RANKING:\<newline>1. Response A'' 30 13
   \<and> FindAllString numberedPattern ''\<newline>1. Response B\<newline>FINAL RANKING:\<newline>1. Response A''
       = [''1. Response B'', ''1. Response A'']
   \<and> ParseRankingFromText ''FINAL RANKING:\<newline>1. Response B\<newline>FINAL RANKING:\<newline>1. Response A''
       = [''Response B'']"
proof -
  let ?t = "''\<newline>1. Response B\<newline>FINAL RANKING:\<newline>1. Response A''"
  have a: "numberedAt ?t 1 13"
    unfolding numberedAt_def
    by (intro exI [of _ "''1''"] exI [of _ "'' ''"] exI [of _ "CHR ''B''"]) simp
  have b: "numberedAt ?t 30 13"
    unfolding numberedAt_def
    by (intro exI [of _ "''1''"] exI [of _ "'' ''"] exI [of _ "CHR ''A''"]) simp
  have "Contains ''FINAL RANKING:\<newline>1. Response B\<newline>FINAL RANKING:\<newline>1. Response A'' marker
   \<and> textAfterMarker ''FINAL RANKING:\<newline>1. Response B\<newline>FINAL RANKING:\<newline>1. Response A'' = ?t
   \<and> FindAllString numberedPattern ?t = [''1. Response B'', ''1. Response A'']
   \<and> ParseRankingFromText ''FINAL RANKING:\<newline>1. Response B\<newline>FINAL RANKING:\<newline>1. Response A''
       = [''Response B'']"
    by code_simp
  with a b show ?thesis by blast
qed

text \<open>
  Claim C7, as amended. For an input without the marker, \<open>ParseRankingFromText\<close>
  returns occurrences of \<open>Response <single uppercase letter>\<close> of the whole text in
  document order: each returned string is the ten bytes of an occurrence, the occurrences
  are taken from the left, none beginning before the previous one has ended, and every
  occurrence of the text begins inside one that is returned. When no two occurrences
  overlap these are all the occurrences of the text (second conjunct). The two examples of
  the specification are the remaining conjuncts.
\<close>

theorem parse_no_marker:
  "(\<not> Contains s marker \<longrightarrow>
      (\<exists>ps. ParseRankingFromText s = map (\<lambda>p. take 10 (drop p s)) ps
         \<and> sorted_wrt (\<lambda>p q. p + 10 \<le> q) ps
         \<and> (\<forall>p \<in> set ps. responseAt s p)
         \<and> (\<forall>q. responseAt s q \<longrightarrow> (\<exists>p \<in> set ps. p \<le> q \<and> q < p + 10))))
   \<and> (\<not> Contains s marker
        \<and> (\<forall>p q. responseAt s p \<and> responseAt s q \<and> p < q \<longrightarrow> p + 10 \<le> q) \<longrightarrow>
      ParseRankingFromText s
        = map (\<lambda>p. take 10 (drop p s)) (filter (responseAt s) [0..<length s]))
   \<and> ParseRankingFromText ''I think Response A is best, then Response C.''
       = [''Response A'', ''Response C'']
   \<and> ParseRankingFromText [] = []"
proof (intro conjI impI)
  assume "\<not> Contains s marker"
  then have "ParseRankingFromText s = FindAllString responsePattern s"
    by (simp add: ParseRankingFromText_def)
  with response_scan [of s]
  show "\<exists>ps. ParseRankingFromText s = map (\<lambda>p. take 10 (drop p s)) ps
         \<and> sorted_wrt (\<lambda>p q. p + 10 \<le> q) ps
         \<and> (\<forall>p \<in> set ps. responseAt s p)
         \<and> (\<forall>q. responseAt s q \<longrightarrow> (\<exists>p \<in> set ps. p \<le> q \<and> q < p + 10))"
    by simp
next
  assume h: "\<not> Contains s marker
        \<and> (\<forall>p q. responseAt s p \<and> responseAt s q \<and> p < q \<longrightarrow> p + 10 \<le> q)"
  then have f: "ParseRankingFromText s = FindAllString responsePattern s"
    by (simp add: ParseRankingFromText_def)
  from response_scan [of s] obtain ps where
    a: "FindAllString responsePattern s = map (\<lambda>p. take 10 (drop p s)) ps" and
    b: "sorted_wrt (\<lambda>p q. p + 10 \<le> q) ps" and
    c: "\<forall>p \<in> set ps. responseAt s p" and
    d: "\<forall>q. responseAt s q \<longrightarrow> (\<exists>p \<in> set ps. p \<le> q \<and> q < p + 10)"
    by blast
  have "set ps = {q. responseAt s q}"
  proof (intro equalityI subsetI)
    fix q assume "q \<in> set ps"
    with c show "q \<in> {q. responseAt s q}" by simp
  next
    fix q assume "q \<in> {q. responseAt s q}"
    then have q: "responseAt s q" by simp
    with d obtain p where p: "p \<in> set ps" "p \<le> q" "q < p + 10" by blast
    with c have "responseAt s p" by blast
    with h q p have "p = q" by (metis le_neq_implies_less not_le)
    with p show "q \<in> set ps" by simp
  qed
  also have "\<dots> = set (filter (responseAt s) [0..<length s])"
    using responseAt_bound by fastforce
  finally have st: "set ps = set (filter (responseAt s) [0..<length s])" .
  from b have "sorted_wrt (<) ps"
    by (rule sorted_wrt_mono_rel [rotated]) simp
  then have "sorted ps" "distinct ps"
    by (simp_all add: strict_sorted_iff)
  moreover have "sorted (filter (responseAt s) [0..<length s])"
    "distinct (filter (responseAt s) [0..<length s])"
    by (simp_all add: sorted_wrt_filter)
  ultimately have "ps = filter (responseAt s) [0..<length s]"
    using st by (intro sorted_distinct_set_unique)
  with f a show "ParseRankingFromText s
        = map (\<lambda>p. take 10 (drop p s)) (filter (responseAt s) [0..<length s])"
    by simp
next
  show "ParseRankingFromText ''I think Response A is best, then Response C.''
       = [''Response A'', ''Response C'']"
    by code_simp
  show "ParseRankingFromText [] = []"
    by code_simp
qed

theorem parse_no_marker_witness:
  "\<not> Contains ''Response b, then Response RResponse C; Response Response A'' marker
   \<and> ParseRankingFromText ''Response b, then Response RResponse C; Response Response A''
       = [''Response R'', ''Response C'', ''Response R'']
   \<and> (\<exists>ps. [''Response R'', ''Response C'', ''Response R'']
          = map (\<lambda>p. take 10 (drop p ''Response b, then Response RResponse C; Response Response A'')) ps
        \<and> sorted_wrt (\<lambda>p q. p + 10 \<le> q) ps
        \<and> list_all (responseAt ''Response b, then Response RResponse C; Response Response A'') ps)
   \<and> \<not> Contains ''I think Response A is best, then Response b, then Response C.'' marker
   \<and> filter (responseAt ''I think Response A is best, then Response b, then Response C.'')
        [0..<length ''I think Response A is best, then Response b, then Response C.''] = [8, 50]
   \<and> ParseRankingFromText ''I think Response A is best, then Response b, then Response C.''
       = [''Response A'', ''Response C'']"
proof -
  let ?s = "''Response b, then Response RResponse C; Response Response A''"
  let ?t = "''I think Response A is best, then Response b, then Response C.''"
  have c: "\<not> Contains ?s marker" by code_simp
  have v: "ParseRankingFromText ?s = [''Response R'', ''Response C'', ''Response R'']"
    by code_simp
  from mp [OF parse_no_marker [of ?s, THEN conjunct1] c] obtain ps where
    p1: "ParseRankingFromText ?s = map (\<lambda>p. take 10 (drop p ?s)) ps"
    and p2: "sorted_wrt (\<lambda>p q. p + 10 \<le> q) ps"
    and p3: "\<forall>p \<in> set ps. responseAt ?s p"
    by (elim exE conjE)
  from p3 have p4: "list_all (responseAt ?s) ps"
    unfolding list_all_iff [of _ ps] .
  have 1: "\<exists>ps. [''Response R'', ''Response C'', ''Response R'']
          = map (\<lambda>p. take 10 (drop p ?s)) ps
        \<and> sorted_wrt (\<lambda>p q. p + 10 \<le> q) ps \<and> list_all (responseAt ?s) ps"
  proof (rule exI [of _ ps], intro conjI)
    from p1 show "[''Response R'', ''Response C'', ''Response R''] = map (\<lambda>p. take 10 (drop p ?s)) ps"
      by (simp only: v)
    show "sorted_wrt (\<lambda>p q. p + 10 \<le> q) ps" by (rule p2)
    show "list_all (responseAt ?s) ps" by (rule p4)
  qed
  have d: "\<not> Contains ?t marker" by code_simp
  have f: "filter (responseAt ?t) [0..<length ?t] = [8, 50]" by code_simp
  have "list_all (\<lambda>p. list_all (\<lambda>q. p < q \<longrightarrow> p + 10 \<le> q) [8, 50]) [8, 50 :: nat]"
    by simp
  then have no: "\<forall>p q. responseAt ?t p \<and> responseAt ?t q \<and> p < q \<longrightarrow> p + 10 \<le> q"
    by (intro no_overlap_check) (simp only: f)
  have m: "map (\<lambda>p. take 10 (drop p ?t)) [8, 50] = [''Response A'', ''Response C'']"
    by simp
  have "ParseRankingFromText ?t = map (\<lambda>p. take 10 (drop p ?t)) (filter (responseAt ?t) [0..<length ?t])"
    by (rule mp [OF parse_no_marker [of ?t, THEN conjunct2, THEN conjunct1] conjI [OF d no]])
  then have 2: "ParseRankingFromText ?t = [''Response A'', ''Response C'']"
    by (simp only: f m)
  show ?thesis by (intro conjI c v 1 d f 2)
qed

text \<open>
  Claim C7 as stated fails when two occurrences overlap: the text below has no marker and
  has an occurrence at position 0 and another, \<open>Response A\<close>, at position 9, and only the
  first is returned.
\<close>

theorem overlapping_occurrences_counterexample:
  "\<not> Contains ''Response Response A'' marker
   \<and> responseAt ''Response Response A'' 0
   \<and> responseAt ''Response Response A'' 9
   \<and> take 10 (drop 9 ''Response Response A'') = ''Response A''
   \<and> ParseRankingFromText ''Response Response A'' = [''Response R'']"
  by code_simp







section \<open>Every order of iteration is modelled\<close>

text \<open>Any arrangement of the entries of a map is the order of some \<open>visit\<close>, so a
  statement proved for all \<open>visit\<close> covers every iteration order Go may choose.\<close>

lemma length_takeWhile_neq_nth:
  "distinct ys \<Longrightarrow> i < length ys \<Longrightarrow> length (takeWhile (\<lambda>y. y \<noteq> ys ! i) ys) = i"
proof (induction ys arbitrary: i)
  case Nil
  then show ?case by simp
next
  case (Cons y ys)
  then show ?case by (cases i) auto
qed

lemma filter_eq_member: "distinct ys \<Longrightarrow> x \<in> set ys \<Longrightarrow> filter (\<lambda>z. z = x) ys = [x]"
proof (induction ys)
  case Nil
  then show ?case by simp
next
  case (Cons y ys)
  show ?case
  proof (cases "y = x")
    case True
    with Cons.prems have "filter (\<lambda>z. z = x) ys = []"
      by (auto simp: filter_empty_conv)
    with True show ?thesis by simp
  next
    case False
    with Cons show ?thesis by simp
  qed
qed

lemma rangeMap_any_order:
  assumes "distinct (map fst m)" "mset xs = mset m"
  shows "\<exists>visit. rangeMap visit m = xs"
proof -
  define visit where "visit k = length (takeWhile (\<lambda>y. y \<noteq> k) (map fst xs))" for k
  from assms have dx: "distinct (map fst xs)"
    by (metis mset_eq_imp_distinct_iff mset_map)
  have pos: "visit (fst (xs ! i)) = i" if "i < length xs" for i
  proof -
    have "length (takeWhile (\<lambda>y. y \<noteq> map fst xs ! i) (map fst xs)) = i"
      using dx that by (intro length_takeWhile_neq_nth) simp_all
    with that show ?thesis by (simp add: visit_def)
  qed
  have "sort_key (\<lambda>(k, v). visit k) m = xs"
  proof (rule properties_for_sort_key)
    show "mset xs = mset m" by (rule assms(2))
    show "sorted (map (\<lambda>(k, v). visit k) xs)"
    proof -
      have "map (\<lambda>(k, v). visit k) xs = map (\<lambda>i. visit (fst (xs ! i))) [0..<length xs]"
        by (rule nth_equalityI) (simp_all add: case_prod_beta)
      also have "\<dots> = [0..<length xs]"
        by (rule nth_equalityI) (simp_all add: pos)
      finally show ?thesis by simp
    qed
    fix kv assume kv: "kv \<in> set xs"
    have inj: "inj_on (\<lambda>(k, v). visit k) (set xs)"
    proof (rule inj_onI)
      fix a b assume ab: "a \<in> set xs" "b \<in> set xs"
        and e: "(\<lambda>(k, v). visit k) a = (\<lambda>(k, v). visit k) b"
      from ab obtain i j where ij: "i < length xs" "xs ! i = a" "j < length xs" "xs ! j = b"
        by (auto simp: in_set_conv_nth)
      with e pos [of i] pos [of j] have "i = j" by (simp add: case_prod_beta)
      with ij show "a = b" by simp
    qed
    have sx: "set m = set xs" using assms(2) by (metis mset_eq_setD)
    have dm: "distinct m" "distinct xs"
      using assms(1) dx by (auto simp: distinct_map)
    have "filter (\<lambda>x. (\<lambda>(k, v). visit k) kv = (\<lambda>(k, v). visit k) x) xs = filter (\<lambda>x. x = kv) xs"
      using inj kv by (intro filter_cong) (auto simp: inj_on_def)
    moreover have "filter (\<lambda>x. (\<lambda>(k, v). visit k) kv = (\<lambda>(k, v). visit k) x) m = filter (\<lambda>x. x = kv) m"
      using inj kv sx by (intro filter_cong) (auto simp: inj_on_def)
    moreover have "filter (\<lambda>x. x = kv) xs = filter (\<lambda>x. x = kv) m"
      using dm kv sx by (simp add: filter_eq_member)
    ultimately show "filter (\<lambda>x. (\<lambda>(k, v). visit k) kv = (\<lambda>(k, v). visit k) x) xs
        = filter (\<lambda>x. (\<lambda>(k, v). visit k) kv = (\<lambda>(k, v). visit k) x) m"
      by simp
  qed
  then show ?thesis unfolding rangeMap_def by blast
qed

section \<open>Properties of the parallel query executor\<close>

lemma fold_update_map_of:
  "map_of (fold (\<lambda>(k, v). AList.update k v) kvs al) = map_of al ++ map_of (rev kvs)"
proof (induction kvs arbitrary: al)
  case Nil
  show ?case by simp
next
  case (Cons kv kvs)
  obtain k v where kv: "kv = (k, v)" by (cases kv)
  have "map_of (fold (\<lambda>(k, v). AList.update k v) (kv # kvs) al)
      = map_of (AList.update k v al) ++ map_of (rev kvs)"
    using Cons.IH [of "AList.update k v al"] by (simp add: kv)
  also have "\<dots> = map_of al ++ map_of (rev (kv # kvs))"
    by (simp add: kv update_conv' map_add_def fun_eq_iff split: option.splits)
  finally show ?case .
qed

lemma fold_update_distinct:
  "distinct (map fst al) \<Longrightarrow> distinct (map fst (fold (\<lambda>(k, v). AList.update k v) kvs al))"
  by (induction kvs arbitrary: al) (auto simp: distinct_update)

lemma fold_update_keys:
  "fst ` set (fold (\<lambda>(k, v). AList.update k v) kvs al) = fst ` set al \<union> fst ` set kvs"
proof (induction kvs arbitrary: al)
  case Nil
  show ?case by simp
next
  case (Cons kv kvs)
  obtain k v where kv: "kv = (k, v)" by (cases kv)
  have "fst ` set (fold (\<lambda>(k, v). AList.update k v) (kv # kvs) al)
      = fst ` set (AList.update k v al) \<union> fst ` set kvs"
    using Cons.IH [of "AList.update k v al"] by (simp add: kv)
  also have "\<dots> = fst ` set al \<union> fst ` set (kv # kvs)"
    unfolding dom_update by (auto simp: kv)
  finally show ?case .
qed

lemma fold_update_entry:
  assumes "(k, v) \<in> set (fold (\<lambda>(k, v). AList.update k v) kvs [])"
  shows "(k, v) \<in> set kvs"
proof -
  have "distinct (map fst (fold (\<lambda>(k, v). AList.update k v) kvs []))"
    by (rule fold_update_distinct) simp
  with assms have "map_of (fold (\<lambda>(k, v). AList.update k v) kvs []) k = Some v"
    by simp
  then have "map_of (rev kvs) k = Some v"
    by (simp add: fold_update_map_of)
  then show ?thesis by (auto dest: map_of_SomeD)
qed

lemma map_of_map_inj:
  "inj_on f (set xs) \<Longrightarrow> x \<in> set xs \<Longrightarrow> map_of (map (\<lambda>i. (f i, g i)) xs) (f x) = Some (g x)"
  by (induction xs) (auto simp: inj_on_def)

text \<open>What a goroutine writes for a call: its response, or \<open>nil\<close> when the call failed.\<close>

lemma goroutine_eq:
  "goroutine q model messages =
     ((model, case q model messages (120 * Second) of Inl e \<Rightarrow> None | Inr r \<Rightarrow> Some r), None)"
  by (simp add: goroutine_def split: sum.splits)

lemma Wait_all_nil: "\<forall>e \<in> set errs. e = None \<Longrightarrow> Wait errs = None"
  by (simp add: Wait_def filter_empty_conv [THEN iffD2])

lemma QueryModelsParallel_eq:
  "QueryModelsParallel env models messages =
     Inr (fold (\<lambda>(k, v). AList.update k v)
            (map (\<lambda>i. (models ! i,
                        case calls env i (models ! i) messages (120 * Second) of
                          Inl e \<Rightarrow> None | Inr r \<Rightarrow> Some r))
                 (sort_key (sched env) [0..<length models]))
            [])"
proof -
  let ?order = "sort_key (sched env) [0..<length models]"
  let ?finished = "map (\<lambda>i. goroutine (calls env i) (models ! i) messages) ?order"
  have w: "Wait (map snd ?finished) = None"
    by (rule Wait_all_nil) (auto simp: goroutine_eq)
  have "fold (\<lambda>((model, response), _) results. AList.update model response results) ?finished []
      = fold (\<lambda>(k, v). AList.update k v) (map fst ?finished) []"
    by (simp add: fold_map comp_def case_prod_beta)
  also have "map fst ?finished
      = map (\<lambda>i. (models ! i,
                   case calls env i (models ! i) messages (120 * Second) of
                     Inl e \<Rightarrow> None | Inr r \<Rightarrow> Some r)) ?order"
    by (simp add: goroutine_eq)
  finally have f: "fold (\<lambda>((model, response), _) results. AList.update model response results)
                     ?finished []
      = fold (\<lambda>(k, v). AList.update k v)
          (map (\<lambda>i. (models ! i,
                   case calls env i (models ! i) messages (120 * Second) of
                     Inl e \<Rightarrow> None | Inr r \<Rightarrow> Some r)) ?order) []" .
  show ?thesis
    unfolding QueryModelsParallel_def Let_def w f by simp
qed

text \<open>
  Claim C2, as amended. For every list of distinct models and every execution (whatever
  each call returns and in whatever order the goroutines finish), \<open>QueryModelsParallel\<close>
  returns no error, and the returned map has exactly one entry for each queried model:
  the response of the model's call when it succeeded, and \<open>nil\<close> when it failed. The
  key of a failed model is present.
\<close>

theorem QueryModelsParallel_entries:
  assumes "distinct models"
  shows "\<exists>results. QueryModelsParallel env models messages = Inr results
           \<and> distinct (map fst results)
           \<and> fst ` set results = set models
           \<and> (\<forall>i < length models.
                 map_of results (models ! i) =
                   Some (case calls env i (models ! i) messages (120 * Second) of
                           Inl e \<Rightarrow> None | Inr r \<Rightarrow> Some r))"
proof -
  let ?out = "\<lambda>i. case calls env i (models ! i) messages (120 * Second) of
                     Inl e \<Rightarrow> None | Inr r \<Rightarrow> Some r"
  let ?order = "sort_key (sched env) [0..<length models]"
  let ?writes = "map (\<lambda>i. (models ! i, ?out i)) ?order"
  let ?results = "fold (\<lambda>(k, v). AList.update k v) ?writes []"
  have eq: "QueryModelsParallel env models messages = Inr ?results"
    by (rule QueryModelsParallel_eq)
  have d: "distinct (map fst ?results)"
    by (rule fold_update_distinct) simp
  have "fst ` set ?writes = set (map (\<lambda>i. models ! i) [0..<length models])"
    by (simp add: image_image)
  also have "\<dots> = set models"
    by (simp only: map_nth)
  finally have k: "fst ` set ?results = set models"
    by (simp add: fold_update_keys)
  have v: "map_of ?results (models ! i) = Some (?out i)" if "i < length models" for i
  proof -
    have inj: "inj_on (\<lambda>i. models ! i) (set (rev ?order))"
      using assms by (auto simp: inj_on_def nth_eq_iff_index_eq)
    have "i \<in> set (rev ?order)" using that by simp
    from map_of_map_inj [OF inj this, of ?out]
    show ?thesis by (simp add: fold_update_map_of rev_map)
  qed
  from eq d k v show ?thesis by blast
qed

theorem QueryModelsParallel_entries_witness:
  "distinct [''model/success'', ''model/fail'']
   \<and> calls (degraded ''Success'') 1 ''model/fail'' [] (120 * Second)
         = Inl (External ''API returned status 500'')
   \<and> (\<exists>results. QueryModelsParallel (degraded ''Success'') [''model/success'', ''model/fail''] []
                      = Inr results
          \<and> fst ` set results = {''model/success'', ''model/fail''}
          \<and> map_of results ''model/success''
                = Some (Some \<lparr>OpenRouterResponse.Content = ''Success'', ReasoningDetails = ()\<rparr>)
          \<and> map_of results ''model/fail'' = Some None)"
proof -
  let ?models = "[''model/success'', ''model/fail'']"
  have d: "distinct ?models" by simp
  from QueryModelsParallel_entries [OF d, of "degraded ''Success''" "[]"]
  obtain results where
    r: "QueryModelsParallel (degraded ''Success'') ?models [] = Inr results"
       "fst ` set results = set ?models"
       "\<forall>i < length ?models.
          map_of results (?models ! i) =
            Some (case calls (degraded ''Success'') i (?models ! i) [] (120 * Second) of
                    Inl e \<Rightarrow> None | Inr r \<Rightarrow> Some r)"
    by blast
  from r(3) [THEN spec, of 0] have "map_of results (?models ! 0) =
            Some (case calls (degraded ''Success'') 0 (?models ! 0) [] (120 * Second) of
                    Inl e \<Rightarrow> None | Inr r \<Rightarrow> Some r)" by simp
  then have a: "map_of results ''model/success''
        = Some (Some \<lparr>OpenRouterResponse.Content = ''Success'', ReasoningDetails = ()\<rparr>)"
    by (simp add: degraded_def answering_def)
  from r(3) [THEN spec, of 1] have "map_of results (?models ! 1) =
            Some (case calls (degraded ''Success'') 1 (?models ! 1) [] (120 * Second) of
                    Inl e \<Rightarrow> None | Inr r \<Rightarrow> Some r)" by simp
  then have b: "map_of results ''model/fail'' = Some None"
    by (simp add: degraded_def failing_def)
  have c: "calls (degraded ''Success'') 1 ''model/fail'' [] (120 * Second)
         = Inl (External ''API returned status 500'')"
    by (simp add: degraded_def failing_def)
  from r(1,2) a b c d show ?thesis by auto
qed


text \<open>
  Claim C2 as stated fails: with one successful and one failed model, the failed model
  has a key in the returned map, bound to \<open>nil\<close> (the case of the repository's test
  "graceful degradation - some models fail").
\<close>

theorem failed_model_has_entry_counterexample:
  "calls (degraded ''Success'') 1 ''model/fail'' [] (120 * Second)
     = Inl (External ''API returned status 500'')
   \<and> QueryModelsParallel (degraded ''Success'') [''model/success'', ''model/fail''] []
     = Inr [(''model/success'',
               Some \<lparr>OpenRouterResponse.Content = ''Success'', ReasoningDetails = ()\<rparr>),
            (''model/fail'', None)]"
  by code_simp


section \<open>Properties of the orchestrator\<close>

lemma rangeMap_set: "set (rangeMap v m) = set m"
  by (simp add: rangeMap_def)

lemma writes_all_nil:
  assumes "\<forall>i < length models. isl (calls env i (models ! i) messages (120 * Second))"
    and "QueryModelsParallel env models messages = Inr results"
    and "(k, v) \<in> set results"
  shows "v = None"
proof -
  from assms(2,3) have "(k, v) \<in> set (map (\<lambda>i. (models ! i,
                        case calls env i (models ! i) messages (120 * Second) of
                          Inl e \<Rightarrow> None | Inr r \<Rightarrow> Some r))
                 (sort_key (sched env) [0..<length models]))"
    unfolding QueryModelsParallel_eq by (auto dest: fold_update_entry)
  then obtain i where "i < length models"
    "v = (case calls env i (models ! i) messages (120 * Second) of
            Inl e \<Rightarrow> None | Inr r \<Rightarrow> Some r)"
    by auto
  with assms(1) show ?thesis by (auto simp: isl_def)
qed

lemma Stage1_all_fail:
  assumes "\<forall>i < length (CouncilModels cfg).
     isl (calls env i (CouncilModels cfg ! i)
            [\<lparr>Role = ''user'', OpenRouterMessage.Content = userQuery\<rparr>] (120 * Second))"
  shows "Stage1CollectResponses cfg env userQuery = Inr []"
proof -
  obtain results where r: "QueryModelsParallel env (CouncilModels cfg)
      [\<lparr>Role = ''user'', OpenRouterMessage.Content = userQuery\<rparr>] = Inr results"
    by (simp add: QueryModelsParallel_eq)
  have "\<forall>(k, v) \<in> set (rangeMap (visit env) results). v = None"
    using writes_all_nil [OF assms r] by (auto simp: rangeMap_set)
  then have "concat (map (\<lambda>(model, response).
                 case response of
                   None \<Rightarrow> []
                 | Some r \<Rightarrow> [\<lparr>Stage1Response.Model = model,
                               Stage1Response.Response = OpenRouterResponse.Content r\<rparr>])
               (rangeMap (visit env) results)) = []"
    by auto
  with r show ?thesis by (simp add: Stage1CollectResponses_def)
qed

lemma Stage1_Inr: "\<exists>rs. Stage1CollectResponses cfg env userQuery = Inr rs"
  by (simp add: Stage1CollectResponses_def QueryModelsParallel_eq)

lemma Stage2_Inr:
  "\<exists>rs. Stage2CollectRankings cfg env userQuery stage1Results
           = Inr (rs, fst (anonymized stage1Results))"
  by (simp add: Stage2CollectRankings_def QueryModelsParallel_eq case_prod_beta)

lemma Stage2_all_fail:
  assumes "\<forall>i < length (CouncilModels cfg).
     isl (calls env i (CouncilModels cfg ! i)
            [\<lparr>Role = ''user'', OpenRouterMessage.Content =
                 rankingPrompt userQuery (snd (anonymized stage1Results))\<rparr>] (120 * Second))"
  shows "Stage2CollectRankings cfg env userQuery stage1Results
           = Inr ([], fst (anonymized stage1Results))"
proof -
  let ?messages = "[\<lparr>Role = ''user'', OpenRouterMessage.Content =
                 rankingPrompt userQuery (snd (anonymized stage1Results))\<rparr>]"
  obtain results where r: "QueryModelsParallel env (CouncilModels cfg) ?messages = Inr results"
    by (simp add: QueryModelsParallel_eq)
  have "\<forall>(k, v) \<in> set (rangeMap (visit env) results). v = None"
    using writes_all_nil [OF assms r] by (auto simp: rangeMap_set)
  then have "concat (map (\<lambda>(model, response).
                 case response of
                   None \<Rightarrow> []
                 | Some r \<Rightarrow>
                     (let fullText = OpenRouterResponse.Content r;
                          parsed = ParseRankingFromText fullText
                      in [\<lparr>Stage2Ranking.Model = model, Ranking = fullText,
                            ParsedRanking = parsed\<rparr>]))
               (rangeMap (visit env) results)) = []"
    by auto
  with r show ?thesis by (simp add: Stage2CollectRankings_def case_prod_beta)
qed

lemma aggregate_nothing:
  "CalculateAggregateRankings float64_div visiting [] labelToModel = []"
  by (simp add: CalculateAggregateRankings_def collectPositions_def rangeMap_def)

text \<open>
  Claim C3. If every council model fails in Stage 1, the filtered Stage-1 list is empty;
  and whenever that list is empty, \<open>RunFullCouncil\<close> returns the error
  "all council models failed to respond" together with \<open>nil\<close> Stage-1 and Stage-2
  slices, the zero \<open>Stage3Response\<close> and the zero \<open>Metadata\<close>.
\<close>

theorem all_models_fail_is_fatal:
  "((\<forall>i < length (CouncilModels cfg).
        isl (calls (round1 w) i (CouncilModels cfg ! i)
               [\<lparr>Role = ''user'', OpenRouterMessage.Content = userQuery\<rparr>] (120 * Second)))
      \<longrightarrow> Stage1CollectResponses cfg (round1 w) userQuery = Inr [])
   \<and> (Stage1CollectResponses cfg (round1 w) userQuery = Inr []
      \<longrightarrow> RunFullCouncil float64_div cfg w userQuery =
            \<lparr>stage1 = [], stage2 = [],
             stage3 = \<lparr>Stage3Response.Model = [], Stage3Response.Response = []\<rparr>,
             metadata = \<lparr>LabelToModel = Map.empty, AggregateRankings = []\<rparr>,
             err = Some (Errorf ''all council models failed to respond'')\<rparr>)"
  using Stage1_all_fail [of cfg "round1 w" userQuery]
  by (simp add: RunFullCouncil_def failed_def)

theorem all_models_fail_is_fatal_witness:
  "list_all (\<lambda>i. isl (calls (round1 deadWorld) i (CouncilModels sampleConfig ! i)
               [\<lparr>Role = ''user'', OpenRouterMessage.Content = ''What is Go?''\<rparr>]
               (120 * Second)))
      [0..<length (CouncilModels sampleConfig)]
   \<and> Stage1CollectResponses sampleConfig (round1 deadWorld) ''What is Go?'' = Inr []
   \<and> RunFullCouncil exact_div sampleConfig deadWorld ''What is Go?'' =
            \<lparr>stage1 = [], stage2 = [],
             stage3 = \<lparr>Stage3Response.Model = [], Stage3Response.Response = []\<rparr>,
             metadata = \<lparr>LabelToModel = Map.empty, AggregateRankings = []\<rparr>,
             err = Some (Errorf ''all council models failed to respond'')\<rparr>"
proof -
  have f: "\<forall>i < length (CouncilModels sampleConfig).
        isl (calls (round1 deadWorld) i (CouncilModels sampleConfig ! i)
               [\<lparr>Role = ''user'', OpenRouterMessage.Content = ''What is Go?''\<rparr>]
               (120 * Second))"
    by (simp add: deadWorld_def allFailing_def failing_def)
  from all_models_fail_is_fatal [of sampleConfig deadWorld "''What is Go?''" exact_div] f
  show ?thesis by (simp add: list_all_iff)
qed

text \<open>
  Claim C4. Let Stage 1 return a non-empty list and Stage 2 return no ranking record.
  Then \<open>RunFullCouncil\<close> goes on to Stage 3 with an empty Stage-2 text: if the chairman
  call succeeds, the run succeeds with the Stage-1 list, no Stage-2 record, the chairman's
  answer and an empty aggregate list in the metadata; if it fails, the error returned is
  the Stage-3 one.
\<close>

theorem no_rankings_not_fatal:
  assumes "Stage1CollectResponses cfg (round1 w) userQuery = Inr stage1Results"
    and "stage1Results \<noteq> []"
    and "Stage2CollectRankings cfg (round2 w) userQuery stage1Results = Inr ([], labelToModel)"
  shows "(chairmanCall w (ChairmanModel cfg)
            [\<lparr>Role = ''user'', OpenRouterMessage.Content =
                chairmanPrompt userQuery (stage1Text stage1Results) (stage2Text [])\<rparr>]
            (ModelQueryTimeout cfg) = Inr response
          \<longrightarrow> RunFullCouncil float64_div cfg w userQuery =
                \<lparr>stage1 = stage1Results, stage2 = [],
                 stage3 = \<lparr>Stage3Response.Model = ChairmanModel cfg,
                            Stage3Response.Response = OpenRouterResponse.Content response\<rparr>,
                 metadata = \<lparr>LabelToModel = labelToModel, AggregateRankings = []\<rparr>,
                 err = None\<rparr>)
       \<and> (chairmanCall w (ChairmanModel cfg)
            [\<lparr>Role = ''user'', OpenRouterMessage.Content =
                chairmanPrompt userQuery (stage1Text stage1Results) (stage2Text [])\<rparr>]
            (ModelQueryTimeout cfg) = Inl e
          \<longrightarrow> err (RunFullCouncil float64_div cfg w userQuery) =
                Some (Wrapf ''stage 3 failed'' (Wrapf ''chairman model query failed'' e)))"
  using assms
  by (simp add: RunFullCouncil_def Stage3SynthesizeFinal_def aggregate_nothing failed_def)

theorem no_rankings_not_fatal_witness:
  "Stage1CollectResponses sampleConfig (round1 unrankedWorld) ''What is Go?''
     = Inr [\<lparr>Stage1Response.Model = ''model/a'',
              Stage1Response.Response = ''Go is a programming language.''\<rparr>,
            \<lparr>Stage1Response.Model = ''model/ccc'',
              Stage1Response.Response = ''Go is a programming language.''\<rparr>]
   \<and> RunFullCouncil exact_div sampleConfig unrankedWorld ''What is Go?''
     = \<lparr>stage1 = [\<lparr>Stage1Response.Model = ''model/a'',
                      Stage1Response.Response = ''Go is a programming language.''\<rparr>,
                    \<lparr>Stage1Response.Model = ''model/ccc'',
                      Stage1Response.Response = ''Go is a programming language.''\<rparr>],
        stage2 = [],
        stage3 = \<lparr>Stage3Response.Model = ''model/chair'',
                   Stage3Response.Response = ''Synthesis''\<rparr>,
        metadata = \<lparr>LabelToModel =
                      fst (anonymized
                        [\<lparr>Stage1Response.Model = ''model/a'',
                           Stage1Response.Response = ''Go is a programming language.''\<rparr>,
                         \<lparr>Stage1Response.Model = ''model/ccc'',
                           Stage1Response.Response = ''Go is a programming language.''\<rparr>]),
                    AggregateRankings = []\<rparr>,
        err = None\<rparr>"
proof -
  let ?s1 = "[\<lparr>Stage1Response.Model = ''model/a'',
              Stage1Response.Response = ''Go is a programming language.''\<rparr>,
            \<lparr>Stage1Response.Model = ''model/ccc'',
              Stage1Response.Response = ''Go is a programming language.''\<rparr>]"
  have s1: "Stage1CollectResponses sampleConfig (round1 unrankedWorld) ''What is Go?'' = Inr ?s1"
    by code_simp
  have ne: "?s1 \<noteq> []" by simp
  have s2: "Stage2CollectRankings sampleConfig (round2 unrankedWorld) ''What is Go?'' ?s1
              = Inr ([], fst (anonymized ?s1))"
    by (rule Stage2_all_fail) (simp add: unrankedWorld_def allFailing_def failing_def)
  have ch: "chairmanCall unrankedWorld (ChairmanModel sampleConfig)
            [\<lparr>Role = ''user'', OpenRouterMessage.Content =
                chairmanPrompt ''What is Go?'' (stage1Text ?s1) (stage2Text [])\<rparr>]
            (ModelQueryTimeout sampleConfig)
          = Inr \<lparr>OpenRouterResponse.Content = ''Synthesis'', ReasoningDetails = ()\<rparr>"
    by (simp add: unrankedWorld_def answering_def)
  from no_rankings_not_fatal [OF s1 ne s2, of _ exact_div] ch s1
  show ?thesis by (simp add: sampleConfig_def)
qed

text \<open>
  Claim C10. A goroutine of \<open>QueryModelsParallel\<close> always returns \<open>nil\<close>, so
  \<open>QueryModelsParallel\<close>, \<open>Stage1CollectResponses\<close> and \<open>Stage2CollectRankings\<close>
  never return an error: the "stage 1 failed" and "stage 2 failed" branches of
  \<open>RunFullCouncil\<close> are dead. The error of \<open>RunFullCouncil\<close> is \<open>nil\<close>, the
  all-models-failed error, or the wrapped error of a failed chairman call.
\<close>

theorem only_two_fatal_errors:
  "snd (goroutine queryModel model messages) = None
   \<and> (\<exists>results. QueryModelsParallel env models messages = Inr results)
   \<and> (\<exists>rs. Stage1CollectResponses cfg env userQuery = Inr rs)
   \<and> (\<exists>rs l2m. Stage2CollectRankings cfg env userQuery stage1Results = Inr (rs, l2m))
   \<and> (err (RunFullCouncil float64_div cfg w userQuery) = None
      \<or> err (RunFullCouncil float64_div cfg w userQuery)
           = Some (Errorf ''all council models failed to respond'')
      \<or> (\<exists>e msgs. chairmanCall w (ChairmanModel cfg) msgs (ModelQueryTimeout cfg) = Inl e
            \<and> err (RunFullCouncil float64_div cfg w userQuery)
                = Some (Wrapf ''stage 3 failed'' (Wrapf ''chairman model query failed'' e))))"
proof (intro conjI)
  show "snd (goroutine queryModel model messages) = None"
    by (simp add: goroutine_eq)
  show "\<exists>results. QueryModelsParallel env models messages = Inr results"
    by (simp add: QueryModelsParallel_eq)
  show "\<exists>rs. Stage1CollectResponses cfg env userQuery = Inr rs"
    by (rule Stage1_Inr)
  show "\<exists>rs l2m. Stage2CollectRankings cfg env userQuery stage1Results = Inr (rs, l2m)"
    using Stage2_Inr [of cfg env userQuery stage1Results] by blast
  obtain s1 where s1: "Stage1CollectResponses cfg (round1 w) userQuery = Inr s1"
    using Stage1_Inr by blast
  obtain s2 where s2: "Stage2CollectRankings cfg (round2 w) userQuery s1
                         = Inr (s2, fst (anonymized s1))"
    using Stage2_Inr by blast
  show "err (RunFullCouncil float64_div cfg w userQuery) = None
      \<or> err (RunFullCouncil float64_div cfg w userQuery)
           = Some (Errorf ''all council models failed to respond'')
      \<or> (\<exists>e msgs. chairmanCall w (ChairmanModel cfg) msgs (ModelQueryTimeout cfg) = Inl e
            \<and> err (RunFullCouncil float64_div cfg w userQuery)
                = Some (Wrapf ''stage 3 failed'' (Wrapf ''chairman model query failed'' e)))"
  proof (cases "s1 = []")
    case True
    with s1 show ?thesis by (simp add: RunFullCouncil_def failed_def)
  next
    case False
    let ?msgs = "[\<lparr>Role = ''user'', OpenRouterMessage.Content =
                chairmanPrompt userQuery (stage1Text s1) (stage2Text s2)\<rparr>]"
    show ?thesis
    proof (cases "chairmanCall w (ChairmanModel cfg) ?msgs (ModelQueryTimeout cfg)")
      case (Inl e)
      with s1 s2 False
      have "err (RunFullCouncil float64_div cfg w userQuery)
              = Some (Wrapf ''stage 3 failed'' (Wrapf ''chairman model query failed'' e))"
        by (simp add: RunFullCouncil_def Stage3SynthesizeFinal_def failed_def)
      with Inl show ?thesis by blast
    next
      case (Inr r)
      with s1 s2 False
      have "err (RunFullCouncil float64_div cfg w userQuery) = None"
        by (simp add: RunFullCouncil_def Stage3SynthesizeFinal_def)
      then show ?thesis by blast
    qed
  qed
qed

section \<open>Properties of the aggregator\<close>

lemma positionsAt_update:
  "positionsAt (AList.update k ps mp) m = (if m = k then ps else positionsAt mp m)"
  by (simp add: positionsAt_def update_conv')

lemma recordPosition_positionsAt:
  "positionsAt (recordPosition l2m (p, l) mp) m =
     positionsAt mp m @ (if l2m l = Some m then [int p + 1] else [])"
  by (cases "l2m l") (auto simp: recordPosition_def positionsAt_update)

lemma recordPosition_keys:
  "fst ` set (recordPosition l2m (p, l) mp) =
     fst ` set mp \<union> (case l2m l of None \<Rightarrow> {} | Some m \<Rightarrow> {m})"
  by (cases "l2m l") (auto simp: recordPosition_def dom_update)

lemma recordPosition_distinct:
  "distinct (map fst mp) \<Longrightarrow> distinct (map fst (recordPosition l2m (p, l) mp))"
  by (cases "l2m l") (auto simp: recordPosition_def distinct_update)

lemma recordPosition_nonempty:
  "\<forall>(k, ps) \<in> set mp. ps \<noteq> [] \<Longrightarrow> \<forall>(k, ps) \<in> set (recordPosition l2m (p, l) mp). ps \<noteq> []"
proof (cases "l2m l")
  case None
  assume "\<forall>(k, ps) \<in> set mp. ps \<noteq> []"
  with None show ?thesis by (simp add: recordPosition_def)
next
  case (Some m)
  assume a: "\<forall>(k, ps) \<in> set mp. ps \<noteq> []"
  have "set (AList.update k v al) \<subseteq> insert (k, v) (set al)" for k and v :: "int list" and al
    by (induction al) auto
  with a Some show ?thesis by (fastforce simp: recordPosition_def)
qed

lemma fold_recordPosition:
  "positionsAt (fold (recordPosition l2m) evs mp) m =
     positionsAt mp m @ map (\<lambda>(p, l). int p + 1) (filter (\<lambda>(p, l). l2m l = Some m) evs)"
  "fst ` set (fold (recordPosition l2m) evs mp) =
     fst ` set mp \<union> {m. \<exists>(p, l) \<in> set evs. l2m l = Some m}"
  "distinct (map fst mp) \<Longrightarrow> distinct (map fst (fold (recordPosition l2m) evs mp))"
  "\<forall>(k, ps) \<in> set mp. ps \<noteq> [] \<Longrightarrow> \<forall>(k, ps) \<in> set (fold (recordPosition l2m) evs mp). ps \<noteq> []"
proof (induction evs arbitrary: mp)
  case Nil
  { case 1 show ?case by simp }
  { case 2 show ?case by simp }
  { case 3 then show ?case by simp }
  { case 4 then show ?case by simp }
next
  case (Cons ev evs)
  obtain p l where ev: "ev = (p, l)" by (cases ev)
  { case 1 show ?case
      using Cons.IH(1) [of "recordPosition l2m (p, l) mp"]
      by (simp add: ev recordPosition_positionsAt) }
  { case 2 show ?case
      using Cons.IH(2) [of "recordPosition l2m (p, l) mp"]
      by (cases "l2m l") (auto simp: ev recordPosition_keys) }
  { case 3 then show ?case
      using Cons.IH(3) [of "recordPosition l2m (p, l) mp"]
      by (simp add: ev recordPosition_distinct) }
  { case 4 then show ?case
      using Cons.IH(4) [of "recordPosition l2m (p, l) mp"] recordPosition_nonempty [of mp l2m p l]
      by (simp add: ev) }
qed

lemma fold_fold_concat: "fold (\<lambda>x. fold f (g x)) xs a = fold f (concat (map g xs)) a"
  by (induction xs arbitrary: a) simp_all

lemma collectPositions_events:
  "collectPositions rs l2m =
     fold (recordPosition l2m) (concat (map (\<lambda>r. enumerate 0 (ParsedRanking r)) rs)) []"
  by (simp add: collectPositions_def fold_fold_concat)

lemma ex_enumerate: "(\<exists>(p, l) \<in> set (enumerate n xs). Q l) = (\<exists>l \<in> set xs. Q l)"
proof -
  have "set xs = snd ` set (enumerate n xs)"
    by (metis map_snd_enumerate set_map)
  then show ?thesis by force
qed

lemma collectPositions_props:
  "distinct (map fst (collectPositions rs l2m))"
  "fst ` set (collectPositions rs l2m) =
     {m. \<exists>r \<in> set rs. \<exists>l \<in> set (ParsedRanking r). l2m l = Some m}"
  "(k, ps) \<in> set (collectPositions rs l2m) \<Longrightarrow> ps = positionsFor l2m rs k \<and> ps \<noteq> []"
proof -
  let ?evs = "concat (map (\<lambda>r. enumerate 0 (ParsedRanking r)) rs)"
  show d: "distinct (map fst (collectPositions rs l2m))"
    unfolding collectPositions_events by (rule fold_recordPosition(3)) simp
  show "fst ` set (collectPositions rs l2m) =
     {m. \<exists>r \<in> set rs. \<exists>l \<in> set (ParsedRanking r). l2m l = Some m}"
    unfolding collectPositions_events fold_recordPosition(2)
    by (simp add: ex_enumerate)
  assume e: "(k, ps) \<in> set (collectPositions rs l2m)"
  with d have "positionsAt (collectPositions rs l2m) k = ps"
    by (simp add: positionsAt_def)
  then have "ps = positionsFor l2m rs k"
    unfolding collectPositions_events fold_recordPosition(1)
    by (simp add: positionsAt_def positionsFor_def map_concat filter_concat comp_def)
  moreover have "\<forall>(k, ps) \<in> set (collectPositions rs l2m). ps \<noteq> []"
    unfolding collectPositions_events by (rule fold_recordPosition(4)) simp
  with e have "ps \<noteq> []" by auto
  ultimately show "ps = positionsFor l2m rs k \<and> ps \<noteq> []" by simp
qed

lemma fold_sum: "fold (\<lambda>pos sum. sum + pos) ps a = a + sum_list ps"
  for ps :: "int list"
  by (induction ps arbitrary: a) simp_all

lemma CalculateAggregateRankings_eq:
  "CalculateAggregateRankings float64_div visiting rs l2m =
     sort_key AverageRank
       (map (\<lambda>(model, positions).
               \<lparr>AggregateRanking.Model = model,
                AverageRank = float64_div (sum_list positions) (int (length positions)),
                RankingsCount = int (length positions)\<rparr>)
            (rangeMap visiting (collectPositions rs l2m)))"
proof -
  have ne: "\<forall>(k, ps) \<in> set (rangeMap visiting (collectPositions rs l2m)). ps \<noteq> []"
    using collectPositions_props(3) [of _ _ rs l2m] by (auto simp: rangeMap_def)
  have "concat (map f xs) = map g xs" if "\<forall>x \<in> set xs. f x = [g x]"
    for f :: "string \<times> int list \<Rightarrow> 'a AggregateRanking list" and g xs
    using that by (induction xs) simp_all
  from this [of "rangeMap visiting (collectPositions rs l2m)"] ne
  show ?thesis
    unfolding CalculateAggregateRankings_def Let_def
    by (auto simp: fold_sum case_prod_beta intro!: arg_cong [where f = "sort_key AverageRank"])
qed

lemma aggregate_models:
  "mset (map AggregateRanking.Model (CalculateAggregateRankings float64_div visiting rs l2m))
     = mset (map fst (collectPositions rs l2m))"
proof -
  have "mset (map AggregateRanking.Model (CalculateAggregateRankings float64_div visiting rs l2m))
      = mset (map fst (rangeMap visiting (collectPositions rs l2m)))"
    unfolding CalculateAggregateRankings_eq
    by (simp add: multiset.map_comp comp_def case_prod_beta)
  also have "\<dots> = mset (map fst (collectPositions rs l2m))"
    by (simp add: rangeMap_def)
  finally show ?thesis .
qed

text \<open>
  Claim C8. The output of \<open>CalculateAggregateRankings\<close> is sorted ascending by
  \<open>AverageRank\<close>; its models are exactly those that some parsed ranking mentions through
  a label of the label-to-model map, each once; so a model that nobody ranked is absent.
  This holds for every order of iteration over \<open>modelPositions\<close>.
\<close>

theorem aggregate_sorted_and_complete:
  "sorted (map AverageRank
       (CalculateAggregateRankings float64_div visiting stage2Results labelToModel))
   \<and> set (map AggregateRanking.Model
       (CalculateAggregateRankings float64_div visiting stage2Results labelToModel))
     = {model. \<exists>ranking \<in> set stage2Results. \<exists>label \<in> set (ParsedRanking ranking).
                 labelToModel label = Some model}
   \<and> distinct (map AggregateRanking.Model
       (CalculateAggregateRankings float64_div visiting stage2Results labelToModel))"
proof (intro conjI)
  show "sorted (map AverageRank
       (CalculateAggregateRankings float64_div visiting stage2Results labelToModel))"
    unfolding CalculateAggregateRankings_eq by (rule sorted_sort_key)
  have "set (map AggregateRanking.Model
       (CalculateAggregateRankings float64_div visiting stage2Results labelToModel))
     = set (map fst (collectPositions stage2Results labelToModel))"
    using aggregate_models by (rule mset_eq_setD)
  then show "set (map AggregateRanking.Model
       (CalculateAggregateRankings float64_div visiting stage2Results labelToModel))
     = {model. \<exists>ranking \<in> set stage2Results. \<exists>label \<in> set (ParsedRanking ranking).
                 labelToModel label = Some model}"
    using collectPositions_props(2) [of stage2Results labelToModel] by simp
  show "distinct (map AggregateRanking.Model
       (CalculateAggregateRankings float64_div visiting stage2Results labelToModel))"
    using aggregate_models collectPositions_props(1) [of stage2Results labelToModel]
    by (metis mset_eq_imp_distinct_iff)
qed

theorem aggregate_sorted_and_complete_witness:
  "CalculateAggregateRankings exact_div length
      [ranked ''model/a'' [''Response A'', ''Response B'', ''Response C''],
       ranked ''model/b'' [''Response B'', ''Response C'', ''Response A''],
       ranked ''model/c'' [''Response C'', ''Response A'', ''Response B'']]
      [''Response A'' \<mapsto> ''model/a'', ''Response B'' \<mapsto> ''model/b'',
       ''Response C'' \<mapsto> ''model/c'', ''Response D'' \<mapsto> ''model/d'']
     = [\<lparr>AggregateRanking.Model = ''model/a'', AverageRank = 2, RankingsCount = 3\<rparr>,
        \<lparr>AggregateRanking.Model = ''model/b'', AverageRank = 2, RankingsCount = 3\<rparr>,
        \<lparr>AggregateRanking.Model = ''model/c'', AverageRank = 2, RankingsCount = 3\<rparr>]
   \<and> ''model/d'' \<notin> set (map AggregateRanking.Model
       (CalculateAggregateRankings exact_div length
         [ranked ''model/a'' [''Response A'', ''Response B'', ''Response C''],
          ranked ''model/b'' [''Response B'', ''Response C'', ''Response A''],
          ranked ''model/c'' [''Response C'', ''Response A'', ''Response B'']]
         [''Response A'' \<mapsto> ''model/a'', ''Response B'' \<mapsto> ''model/b'',
          ''Response C'' \<mapsto> ''model/c'', ''Response D'' \<mapsto> ''model/d'']))"
proof -
  let ?rs = "[ranked ''model/a'' [''Response A'', ''Response B'', ''Response C''],
       ranked ''model/b'' [''Response B'', ''Response C'', ''Response A''],
       ranked ''model/c'' [''Response C'', ''Response A'', ''Response B'']]"
  let ?l2m = "[''Response A'' \<mapsto> ''model/a'', ''Response B'' \<mapsto> ''model/b'',
       ''Response C'' \<mapsto> ''model/c'', ''Response D'' \<mapsto> ''model/d'']"
  have out: "CalculateAggregateRankings exact_div length ?rs ?l2m
     = [\<lparr>AggregateRanking.Model = ''model/a'', AverageRank = 2, RankingsCount = 3\<rparr>,
        \<lparr>AggregateRanking.Model = ''model/b'', AverageRank = 2, RankingsCount = 3\<rparr>,
        \<lparr>AggregateRanking.Model = ''model/c'', AverageRank = 2, RankingsCount = 3\<rparr>]"
    by code_simp
  from aggregate_sorted_and_complete [of exact_div length ?rs ?l2m]
  have "set (map AggregateRanking.Model (CalculateAggregateRankings exact_div length ?rs ?l2m))
     = {model. \<exists>ranking \<in> set ?rs. \<exists>label \<in> set (ParsedRanking ranking).
                 ?l2m label = Some model}"
    by blast
  moreover have "''model/d'' \<notin> {model. \<exists>ranking \<in> set ?rs.
                 \<exists>label \<in> set (ParsedRanking ranking). ?l2m label = Some model}"
    by (simp add: ranked_def)
  ultimately have "''model/d'' \<notin> set (map AggregateRanking.Model
       (CalculateAggregateRankings exact_div length ?rs ?l2m))"
    by blast
  with out show ?thesis by blast
qed

lemma occurrences_enumerate:
  "length (filter (\<lambda>(p, l). Q l) (enumerate n xs)) = length (filter Q xs)"
  by (induction xs arbitrary: n) simp_all

lemma length_positionsFor:
  "length (positionsFor l2m rs m) =
     sum_list (map (\<lambda>r. length (filter (\<lambda>l. l2m l = Some m) (ParsedRanking r))) rs)"
  by (simp add: positionsFor_def length_concat comp_def occurrences_enumerate)

lemma rankers_if_no_repeat:
  assumes "\<forall>r \<in> set rs. length (filter (\<lambda>l. l2m l = Some m) (ParsedRanking r)) \<le> 1"
  shows "length (positionsFor l2m rs m) = rankersPlacing l2m rs m"
  using assms
proof (induction rs)
  case Nil
  show ?case by (simp add: positionsFor_def rankersPlacing_def)
next
  case (Cons r rs)
  let ?n = "length (filter (\<lambda>l. l2m l = Some m) (ParsedRanking r))"
  have "?n = (if list_ex (\<lambda>l. l2m l = Some m) (ParsedRanking r) then 1 else 0)"
  proof (cases "list_ex (\<lambda>l. l2m l = Some m) (ParsedRanking r)")
    case True
    then have "filter (\<lambda>l. l2m l = Some m) (ParsedRanking r) \<noteq> []"
      by (auto simp: list_ex_iff filter_empty_conv)
    then have "1 \<le> ?n"
      by (cases "filter (\<lambda>l. l2m l = Some m) (ParsedRanking r)") simp_all
    moreover from Cons.prems have "?n \<le> 1" by simp
    ultimately have "?n = 1" by linarith
    with True show ?thesis by simp
  next
    case False
    then have "filter (\<lambda>l. l2m l = Some m) (ParsedRanking r) = []"
      by (auto simp: list_ex_iff filter_empty_conv)
    with False show ?thesis by simp
  qed
  with Cons show ?case
    by (simp add: length_positionsFor rankersPlacing_def)
qed

text \<open>
  Claim C5, as amended. For every entry of the output, \<open>AverageRank\<close> is the sum of
  the 1-based positions recorded for its model divided by their number, and
  \<open>RankingsCount\<close> is that number. One position is recorded for each occurrence of a
  label of the model in a parsed order (\<open>positionsFor\<close>), so the number counts
  occurrences; it is the number of rankers who placed the model whenever no parsed order
  mentions the model more than once.
\<close>

theorem average_over_occurrences:
  assumes "a \<in> set (CalculateAggregateRankings float64_div visiting stage2Results labelToModel)"
  shows "positionsFor labelToModel stage2Results (AggregateRanking.Model a) \<noteq> []
    \<and> AverageRank a =
        float64_div (sum_list (positionsFor labelToModel stage2Results (AggregateRanking.Model a)))
          (int (length (positionsFor labelToModel stage2Results (AggregateRanking.Model a))))
    \<and> RankingsCount a =
        int (length (positionsFor labelToModel stage2Results (AggregateRanking.Model a)))
    \<and> ((\<forall>ranking \<in> set stage2Results.
           length (filter (\<lambda>label. labelToModel label = Some (AggregateRanking.Model a))
                     (ParsedRanking ranking)) \<le> 1)
         \<longrightarrow> RankingsCount a =
               int (rankersPlacing labelToModel stage2Results (AggregateRanking.Model a)))"
proof -
  from assms obtain k ps where
    kps: "(k, ps) \<in> set (collectPositions stage2Results labelToModel)" and
    a: "a = \<lparr>AggregateRanking.Model = k,
              AverageRank = float64_div (sum_list ps) (int (length ps)),
              RankingsCount = int (length ps)\<rparr>"
    unfolding CalculateAggregateRankings_eq by (auto simp: rangeMap_def)
  from collectPositions_props(3) [OF kps]
  have ps: "ps = positionsFor labelToModel stage2Results k" "ps \<noteq> []" by blast+
  from a have m: "AggregateRanking.Model a = k" by simp
  show ?thesis
    unfolding m using a ps rankers_if_no_repeat [of stage2Results labelToModel k]
    by auto
qed

theorem average_over_occurrences_witness:
  "CalculateAggregateRankings exact_div length
      [ranked ''model/a'' [''Response A'', ''Response A'', ''Response B''],
       ranked ''model/ccc'' [''Response B'', ''Response D'', ''Response A'']] sampleLabels
     = [\<lparr>AggregateRanking.Model = ''model/a'', AverageRank = exact_div 6 3,
         RankingsCount = 3\<rparr>,
        \<lparr>AggregateRanking.Model = ''model/ccc'', AverageRank = exact_div 4 2,
         RankingsCount = 2\<rparr>]
   \<and> positionsFor sampleLabels
        [ranked ''model/a'' [''Response A'', ''Response A'', ''Response B''],
         ranked ''model/ccc'' [''Response B'', ''Response D'', ''Response A'']] ''model/ccc''
       = [3, 1]
   \<and> rankersPlacing sampleLabels
        [ranked ''model/a'' [''Response A'', ''Response A'', ''Response B''],
         ranked ''model/ccc'' [''Response B'', ''Response D'', ''Response A'']] ''model/ccc''
       = 2"
proof -
  let ?rs = "[ranked ''model/a'' [''Response A'', ''Response A'', ''Response B''],
       ranked ''model/ccc'' [''Response B'', ''Response D'', ''Response A'']]"
  let ?a = "\<lparr>AggregateRanking.Model = ''model/ccc'', AverageRank = exact_div 4 2,
         RankingsCount = 2\<rparr>"
  have out: "CalculateAggregateRankings exact_div length ?rs sampleLabels
     = [\<lparr>AggregateRanking.Model = ''model/a'', AverageRank = exact_div 6 3,
         RankingsCount = 3\<rparr>, ?a]"
    by code_simp
  then have mem: "?a \<in> set (CalculateAggregateRankings exact_div length ?rs sampleLabels)"
    by simp
  have once: "\<forall>ranking \<in> set ?rs.
           length (filter (\<lambda>label. sampleLabels label = Some (AggregateRanking.Model ?a))
                     (ParsedRanking ranking)) \<le> 1"
    by (simp add: ranked_def sampleLabels_def)
  have ps: "positionsFor sampleLabels ?rs ''model/ccc'' = [3, 1]"
    by code_simp
  from average_over_occurrences [OF mem] once
  have "RankingsCount ?a = int (rankersPlacing sampleLabels ?rs (AggregateRanking.Model ?a))"
    by blast
  then have "rankersPlacing sampleLabels ?rs ''model/ccc'' = 2" by simp
  with out ps show ?thesis by simp
qed

text \<open>
  Claim C5 as stated fails when a parsed order repeats a label: one ranker places
  \<open>model/a\<close> twice, so \<open>RankingsCount\<close> is 2 although one ranker placed the model,
  and the average is 3/2, not the sum 3 divided by that one ranker.
\<close>

theorem count_is_occurrences_counterexample:
  "CalculateAggregateRankings exact_div length
      [ranked ''model/ccc'' [''Response A'', ''Response A'']] sampleLabels
     = [\<lparr>AggregateRanking.Model = ''model/a'', AverageRank = exact_div 3 2,
         RankingsCount = 2\<rparr>]
   \<and> rankersPlacing sampleLabels [ranked ''model/ccc'' [''Response A'', ''Response A'']]
        ''model/a'' = 1
   \<and> exact_div 3 2 \<noteq> exact_div 3 1"
  by code_simp

section \<open>Properties of the anonymization\<close>

















end
